theory Spec2Isabelle
  imports Main "HOL-Library.AList"
begin

section \<open>Strings and paths\<close>

text \<open>
  Python strings are modelled as \<^typ>\<open>string\<close>. The functions of \<open>os.path\<close> that the
  program calls are written out for POSIX paths (separator \<open>/\<close>), following
  \<open>posixpath.py\<close> and \<open>genericpath.py\<close> of the standard library of Python 3.6 and
  later.
\<close>

definition sep :: char where
  "sep = CHR ''/''"

definition basename :: "string \<Rightarrow> string" where
  \<comment> \<open>\<open>i = p.rfind('/') + 1; return p[i:]\<close>\<close>
  "basename p = rev (takeWhile (\<lambda>c. c \<noteq> sep) (rev p))"

definition dirname :: "string \<Rightarrow> string" where
  \<comment> \<open>\<open>head = p[:i]; if head and head != '/' * len(head): head = head.rstrip('/')\<close>\<close>
  "dirname p =
     (let head = take (length p - length (basename p)) p
      in if head \<noteq> [] \<and> \<not> list_all (\<lambda>c. c = sep) head
         then rev (dropWhile (\<lambda>c. c = sep) (rev head))
         else head)"

definition isabs :: "string \<Rightarrow> bool" where
  "isabs p = (take 1 p = [sep])"

definition join :: "string \<Rightarrow> string \<Rightarrow> string" where
  \<comment> \<open>\<open>os.path.join(a, b)\<close> with two arguments\<close>
  "join a b =
     (if take 1 b = [sep] then b
      else if a = [] \<or> last a = sep then a @ b
      else a @ [sep] @ b)"

definition strip_ext :: "string \<Rightarrow> string" where
  \<comment> \<open>\<open>os.path.splitext(filename)[0]\<close>: the extension starts at the last dot of the
      last path segment, unless only dots precede it there.\<close>
  "strip_ext filename =
     (let b = basename filename;
          e = takeWhile (\<lambda>c. c \<noteq> CHR ''.'') (rev b)
      in if CHR ''.'' \<in> set b
            \<and> \<not> list_all (\<lambda>c. c = CHR ''.'') (take (length b - Suc (length e)) b)
         then take (length filename - Suc (length e)) filename
         else filename)"

fun common2 :: "string \<Rightarrow> string \<Rightarrow> string" where
  "common2 (x # xs) (y # ys) = (if x = y then x # common2 xs ys else [])"
| "common2 _ _ = []"

fun common_prefix :: "string list \<Rightarrow> string" where
  \<comment> \<open>the longest string that is a prefix of every element, which
      \<open>os.path.commonprefix\<close> computes from the least and the greatest element\<close>
  "common_prefix [] = []"
| "common_prefix [p] = p"
| "common_prefix (p # q # ps) = common2 p (common_prefix (q # ps))"

section \<open>Errors\<close>

text \<open>
  Exceptions are values. \<open>XmlError\<close> and \<open>InvalidArgumentError\<close> are the
  program's own classes; \<open>ParseError\<close> is \<open>xml.etree.ElementTree.ParseError\<close>;
  the others are built-in. The string is the exception's message.
\<close>

datatype error =
    IOError string
  | XmlError string
  | InvalidArgumentError string
  | AssertionError string
  | ParseError string
  | TypeError
  | AttributeError

section \<open>The operating system\<close>

text \<open>
  The file system and the XML library are parameters of the model: \<open>walk\<close> is the
  sequence that \<open>os.walk\<close> yields for a directory (each visited directory with the
  names of its files), \<open>read_lines\<close> the lines of a text file (\<open>Inl\<close> the message of
  the \<open>IOError\<close> when \<open>open\<close> fails), \<open>normpath\<close> and \<open>abspath\<close> are the
  functions of \<open>os.path\<close>, and \<open>xml_parse\<close> is
  \<open>ElementTree.parse(config_file).getroot()\<close>.
\<close>

datatype xml =
  Element (tag: string) (attrib: "(string \<times> string) list") (elem_text: "string option")
    (children: "xml list")

record os_env =
  isfile :: "string \<Rightarrow> bool"
  isdir :: "string \<Rightarrow> bool"
  walk :: "string \<Rightarrow> (string \<times> string list) list"
  read_lines :: "string \<Rightarrow> string + string list"
  normpath :: "string \<Rightarrow> string"
  abspath :: "string \<Rightarrow> string"
  xml_parse :: "string \<Rightarrow> error + xml"

section \<open>Include directives\<close>

record Include =
  hfile :: string
  with_quotes :: bool
  inc_hpath :: "string option"

definition Include_init :: "string \<Rightarrow> bool \<Rightarrow> Include" where
  "Include_init h q = \<lparr>hfile = h, with_quotes = q, inc_hpath = None\<rparr>"

definition Include_str :: "Include \<Rightarrow> string" where
  "Include_str i =
     (if with_quotes i then [CHR 0x22] @ hfile i @ [CHR 0x22]
      else ''<'' @ hfile i @ ''>'')"

definition is_space :: "char \<Rightarrow> bool" where
  \<comment> \<open>The class \<open>\s\<close> of a text pattern, which is also what \<open>str.strip\<close> removes, among
      the first 256 characters: space, tab, line feed, vertical tab, form feed, carriage
      return, the separators \<open>0x1C\<close> to \<open>0x1F\<close>, next line \<open>0x85\<close> and no-break space
      \<open>0xA0\<close>.\<close>
  "is_space c =
     (c \<in> set [CHR '' '', CHR 0x09, CHR 0x0A, CHR 0x0B, CHR 0x0C, CHR 0x0D,
                CHR 0x1C, CHR 0x1D, CHR 0x1E, CHR 0x1F, CHR 0x85, CHR 0xA0])"

definition delimited :: "char \<Rightarrow> string \<Rightarrow> string option" where
  \<comment> \<open>The greedy group \<open>(.+)\<close> followed by the closing delimiter \<open>q\<close>: \<open>.\<close> does not
      match a line feed, so the group is the text before the last \<open>q\<close> of the current
      line, and it must not be empty.\<close>
  "delimited q rest =
     (let body = takeWhile (\<lambda>c. c \<noteq> CHR 0x0A) rest;
          tail = takeWhile (\<lambda>c. c \<noteq> q) (rev body)
      in if q \<in> set body \<and> Suc (length tail) < length body
         then Some (take (length body - Suc (length tail)) body)
         else None)"

definition Include_search :: "string \<Rightarrow> Include option" where
  \<comment> \<open>\<open>_RE_INCLUDE.search(line)\<close> followed by the choice between the two groups\<close>
  "Include_search line =
     (let l1 = dropWhile is_space line
      in if take 8 l1 \<noteq> ''#include'' then None
         else (case dropWhile is_space (drop 8 l1) of
                 [] \<Rightarrow> None
               | c # rest \<Rightarrow>
                   if c = CHR ''<'' then map_option (\<lambda>h. Include_init h False) (delimited (CHR ''>'') rest)
                   else if c = CHR 0x22 then map_option (\<lambda>h. Include_init h True) (delimited (CHR 0x22) rest)
                   else None))"

definition Include_grep :: "os_env \<Rightarrow> string \<Rightarrow> error + Include list" where
  "Include_grep env file_path =
     (case read_lines env file_path of
        Inl msg \<Rightarrow> Inl (IOError msg)
      | Inr ls \<Rightarrow> Inr (List.map_filter Include_search ls))"

definition Include_locate ::
  "os_env \<Rightarrow> Include \<Rightarrow> string \<Rightarrow> string list \<Rightarrow> error + (Include \<times> string list)" where
  \<comment> \<open>The method \<open>Include.locate\<close>: the include with its \<open>hpath\<close> and the warning
      printed. A quoted include is looked for in the working directory first, then the
      include directories are tried in turn.\<close>
  "Include_locate env i cwd include_dirs =
     (if inc_hpath i \<noteq> None then Inl (AssertionError [])
      else if with_quotes i \<and> isfile env (join cwd (hfile i))
      then Inr (i\<lparr>inc_hpath := Some (join cwd (hfile i))\<rparr>, [])
      else (case List.find (\<lambda>include_dir. isfile env (join include_dir (hfile i))) include_dirs of
              Some include_dir \<Rightarrow> Inr (i\<lparr>inc_hpath := Some (join include_dir (hfile i))\<rparr>, [])
            | None \<Rightarrow>
                Inr (i, [''warning: include issues: header not found: '' @ hfile i])))"

section \<open>Finding files\<close>

definition lower :: "char \<Rightarrow> char" where
  "lower c =
     (case map_of (zip ''ABCDEFGHIJKLMNOPQRSTUVWXYZ'' ''abcdefghijklmnopqrstuvwxyz'') c of
        Some l \<Rightarrow> l
      | None \<Rightarrow> c)"

definition ends_ci :: "string \<Rightarrow> string \<Rightarrow> bool" where
  \<comment> \<open>\<open>.*\<close> followed by the lower-case text \<open>suffix\<close>, ignoring case, up to the end\<close>
  "ends_ci suffix s =
     (length suffix \<le> length s
      \<and> map lower (drop (length s - length suffix) s) = suffix
      \<and> CHR 0x0A \<notin> set (take (length s - length suffix) s))"

definition re_match_ext :: "char \<Rightarrow> string \<Rightarrow> bool" where
  \<comment> \<open>\<open>re.compile(r'(?i).*\.x(xx|\+\+|x|pp|)$').match(s)\<close> for the letter \<open>x\<close>;
      \<open>$\<close> also matches before a line feed that ends the string.\<close>
  "re_match_ext x s =
     (let t = (if s \<noteq> [] \<and> last s = CHR 0x0A then butlast s else s)
      in list_ex (\<lambda>alt. ends_ci ([CHR ''.'', x] @ alt) t) [''xx'', ''++'', [x], ''pp'', []])"

definition RE_HFILE :: "string \<Rightarrow> bool" where
  "RE_HFILE = re_match_ext CHR ''h''"

definition RE_CFILE :: "string \<Rightarrow> bool" where
  "RE_CFILE = re_match_ext CHR ''c''"

definition find_files :: "os_env \<Rightarrow> string \<Rightarrow> (string \<Rightarrow> bool) \<Rightarrow> (string \<times> string) list" where
  \<comment> \<open>the generator \<open>find(path, fnmatcher)\<close>: basename and full path of each match\<close>
  "find_files env path fnmatcher =
     (if isfile env path
      then (let filename = basename path
            in if fnmatcher filename then [(filename, path)] else [])
      else concat (map (\<lambda>(root, files).
                          map (\<lambda>entry. (entry, join root entry)) (filter fnmatcher files))
                       (walk env path)))"

text \<open>
  A Python dictionary is an association list in insertion order: \<^const>\<open>AList.update\<close>
  overwrites the value of a present key in place and appends a new key, and
  \<^const>\<open>map_of\<close> looks a key up.
\<close>

type_synonym ('k, 'v) dict = "('k \<times> 'v) list"

definition find_hfiles_step ::
  "string \<times> string \<Rightarrow> (string, string) dict \<times> (string, string) dict
     \<Rightarrow> (string, string) dict \<times> (string, string) dict" where
  \<comment> \<open>the body of the loop of \<open>find_hfiles\<close>, on the pair \<open>(hbases, hfiles)\<close>\<close>
  "find_hfiles_step =
     (\<lambda>(hfile, hpath) (hbases, hfiles).
        (AList.update (strip_ext hfile) hpath hbases,
         if map_of hfiles hfile = None then AList.update hfile hpath hfiles else hfiles))"

definition find_hfiles ::
  "os_env \<Rightarrow> string \<Rightarrow> (string, string) dict \<times> (string, string) dict
     \<Rightarrow> (string, string) dict \<times> (string, string) dict" where
  "find_hfiles env path d = fold find_hfiles_step (find_files env path RE_HFILE) d"

fun find_cfiles_loop ::
  "(string \<times> string) list \<Rightarrow> (string, string) dict \<Rightarrow> error + (string, string) dict" where
  "find_cfiles_loop [] cbases = Inr cbases"
| "find_cfiles_loop ((cfile, cpath) # es) cbases =
     (let cbase = strip_ext cfile
      in if map_of cbases cbase \<noteq> None then Inl (AssertionError [])
         else find_cfiles_loop es (AList.update cbase cpath cbases))"

definition find_cfiles ::
  "os_env \<Rightarrow> string \<Rightarrow> (string, string) dict \<Rightarrow> error + (string, string) dict" where
  "find_cfiles env path cbases = find_cfiles_loop (find_files env path RE_CFILE) cbases"

section \<open>Python values\<close>

definition truthy :: "string option \<Rightarrow> bool" where
  \<comment> \<open>the truth value of an optional string: \<open>None\<close> and \<open>''\<close> are false\<close>
  "truthy v = (case v of None \<Rightarrow> False | Some t \<Rightarrow> t \<noteq> [])"

definition py_str :: "string option \<Rightarrow> string" where
  \<comment> \<open>\<open>'%s' % v\<close> for an optional string\<close>
  "py_str v = (case v of None \<Rightarrow> ''None'' | Some t \<Rightarrow> t)"

fun split :: "char \<Rightarrow> string \<Rightarrow> string list" where
  \<comment> \<open>\<open>s.split(c)\<close>\<close>
  "split c [] = [[]]"
| "split c (x # xs) =
     (if x = c then [] # split c xs
      else (case split c xs of [] \<Rightarrow> [[x]] | y # ys \<Rightarrow> (x # y) # ys))"

fun str_join :: "string \<Rightarrow> string list \<Rightarrow> string" where
  \<comment> \<open>\<open>d.join(xs)\<close>\<close>
  "str_join d [] = []"
| "str_join d [x] = x"
| "str_join d (x # y # ys) = x @ d @ str_join d (y # ys)"

definition strip :: "string \<Rightarrow> string" where
  \<comment> \<open>\<open>s.strip()\<close>\<close>
  "strip s = rev (dropWhile is_space (rev (dropWhile is_space s)))"

fun fold_err :: "('a \<Rightarrow> 's \<Rightarrow> error + 's) \<Rightarrow> 'a list \<Rightarrow> 's \<Rightarrow> error + 's" where
  \<comment> \<open>a \<open>for\<close> loop whose body may raise: the first exception ends the loop\<close>
  "fold_err f [] s = Inr s"
| "fold_err f (x # xs) s = (case f x s of Inl e \<Rightarrow> Inl e | Inr s' \<Rightarrow> fold_err f xs s')"

section \<open>Package groups and packages\<close>

record Package =
  pkg_name :: string
  paths :: "string list"
  pkg_group :: "string option"
  root :: string

text \<open>
  \<open>paths\<close> holds the elements of the set \<open>self.paths\<close> in the order in which the program
  iterates over the set, whichever that is; \<open>pkg_group\<close> is the name of the group the
  package belongs to, which is all the modelled code reads through the back-reference
  \<open>package.group\<close>.
\<close>

record PackageGroup =
  grp_name :: "string option"
  grp_path :: string
  packages :: "(string, Package) dict"

text \<open>
  \<open>common_path\<close> is written for a sequence of paths; \<open>Package.__init__\<close> calls it with
  the set \<open>self.paths\<close>. The argument is therefore a list or a set, the latter given by
  its elements.
\<close>

datatype path_collection = PathList "string list" | PathSet "string list"

definition elements :: "path_collection \<Rightarrow> string list" where
  "elements m = (case m of PathList ps \<Rightarrow> ps | PathSet ps \<Rightarrow> ps)"

definition commonprefix :: "path_collection \<Rightarrow> error + string" where
  \<comment> \<open>\<open>os.path.commonprefix(m)\<close>: after \<open>if not m: return ''\<close> the function evaluates
      \<open>m[0]\<close>, which raises \<open>TypeError\<close> when \<open>m\<close> is a set.\<close>
  "commonprefix m =
     (if elements m = [] then Inr []
      else (case m of
              PathSet ps \<Rightarrow> Inl TypeError
            | PathList ps \<Rightarrow> Inr (common_prefix ps)))"

definition common_path :: "path_collection \<Rightarrow> error + string" where
  \<comment> \<open>When \<open>x ! sep_pos\<close> is read, \<open>x\<close> is longer than the common prefix.\<close>
  "common_path m =
     (case commonprefix m of
        Inl e \<Rightarrow> Inl e
      | Inr path \<Rightarrow>
          if \<not> isabs path then Inl (AssertionError [])
          else if last path = sep then Inr (butlast path)
          else (let sep_pos = length path
                in if list_all (\<lambda>x. length x = sep_pos \<or> x ! sep_pos = sep) (elements m)
                   then Inr path
                   else Inr (dirname path)))"

definition PackageGroup_init :: "os_env \<Rightarrow> string option \<Rightarrow> string option \<Rightarrow> error + PackageGroup" where
  \<comment> \<open>\<open>os.path.isdir(None)\<close> raises \<open>TypeError\<close>.\<close>
  "PackageGroup_init env nm pth =
     (case pth of
        None \<Rightarrow> Inl TypeError
      | Some p \<Rightarrow>
          if \<not> isdir env p then Inl (InvalidArgumentError (p @ '' is not a directory.''))
          else Inr \<lparr>grp_name = nm, grp_path = abspath env (normpath env p), packages = []\<rparr>)"

definition add_package :: "PackageGroup \<Rightarrow> Package \<Rightarrow> error + PackageGroup" where
  "add_package grp pkg =
     (if map_of (packages grp) (pkg_name pkg) \<noteq> None
      then Inl (InvalidArgumentError
                  (pkg_name pkg @ '' is a duplicate package in '' @ py_str (grp_name grp) @ '' group.''))
      else Inr (grp\<lparr>packages := AList.update (pkg_name pkg) pkg (packages grp)\<rparr>))"

fun Package_paths ::
  "os_env \<Rightarrow> PackageGroup \<Rightarrow> string option \<Rightarrow> string option list
     \<Rightarrow> string list \<times> string option \<Rightarrow> error + (string list \<times> string option)" where
  \<comment> \<open>The loop over \<open>paths\<close> in \<open>Package.__init__\<close>, on the pair of \<open>self.paths\<close> and the
      loop variable \<open>path\<close>. An element is the \<open>text\<close> of a \<open>path\<close> element, stripped when
      the loop reaches it; \<open>None.strip()\<close> raises \<open>AttributeError\<close>.\<close>
  "Package_paths env grp nm [] acc = Inr acc"
| "Package_paths env grp nm (t # ts) acc =
     (case t of
        None \<Rightarrow> Inl AttributeError
      | Some txt \<Rightarrow>
          (let path = normpath env (strip txt);
               abs_path = join (grp_path grp) path
           in if \<not> isdir env abs_path
              then Inl (InvalidArgumentError
                          (path @ '' is not a directory in '' @ grp_path grp
                             @ '' (group '' @ py_str (grp_name grp) @ '').''))
              else if abs_path \<in> set (fst acc)
              then (if \<not> truthy nm then Inl (AssertionError [])
                    else Inl (InvalidArgumentError
                                (abs_path @ '' is duplicated in '' @ py_str nm @ ''.''
                                   @ py_str (grp_name grp))))
              else Package_paths env grp nm ts (fst acc @ [abs_path], Some path)))"

definition Package_init ::
  "os_env \<Rightarrow> string option list \<Rightarrow> PackageGroup \<Rightarrow> string option
     \<Rightarrow> error + (Package \<times> PackageGroup)" where
  \<comment> \<open>Returns the package and the group in which it is registered. The root is asked
      of \<open>common_path\<close> with the set \<open>self.paths\<close>.\<close>
  "Package_init env pths grp nm =
     (case Package_paths env grp nm pths ([], None) of
        Inl e \<Rightarrow> Inl e
      | Inr (ps, last_path) \<Rightarrow>
          if ps = [] then Inl (AssertionError ''No package directory paths are provided.'')
          else if \<not> (truthy nm \<or> length ps = 1)
          then Inl (AssertionError ''The package name is undefined.'')
          else (case (if truthy nm then Inr (py_str nm)
                      else (case last_path of
                              None \<Rightarrow> Inl AttributeError
                            | Some path \<Rightarrow>
                                Inr (str_join ''_'' (filter (\<lambda>x. x \<noteq> []) (split sep path))))) of
                  Inl e \<Rightarrow> Inl e
                | Inr n \<Rightarrow>
                    (case common_path (PathSet ps) of
                       Inl e \<Rightarrow> Inl e
                     | Inr r \<Rightarrow>
                         (let pkg = \<lparr>pkg_name = n, paths = ps, pkg_group = grp_name grp, root = r\<rparr>
                          in case add_package grp pkg of
                               Inl e \<Rightarrow> Inl e
                             | Inr grp' \<Rightarrow> Inr (pkg, grp')))))"

section \<open>Components\<close>

record ExternalComponent =
  ext_hpath :: string
  ext_package :: Package

text \<open>
  A component object is identified by the key under which \<open>DependencyAnalysis\<close> stores it
  in \<open>components\<close> (the assertions of the construction keep the keys distinct), so a set
  of internal dependency components is a set of keys. \<open>comp_hfile\<close> is the attribute
  \<open>hfile\<close> of a component. The registration \<open>package.components.append(self)\<close> is
  represented by the field \<open>package\<close>.
\<close>

record Component =
  name :: string
  hpath :: "string option"
  comp_hfile :: "string option"
  cpath :: "string option"
  package :: Package
  dep_internal_components :: "string set"
  dep_external_components :: "ExternalComponent set"
  includes_in_h :: "Include list"
  includes_in_c :: "Include list"

definition grep_opt :: "os_env \<Rightarrow> string option \<Rightarrow> error + Include list" where
  \<comment> \<open>\<open>[] if not path else list(Include.grep(path))\<close>\<close>
  "grep_opt env pth =
     (case pth of
        None \<Rightarrow> Inr []
      | Some f \<Rightarrow> if f = [] then Inr [] else Include_grep env f)"

definition Component_init ::
  "os_env \<Rightarrow> string option \<Rightarrow> string option \<Rightarrow> Package \<Rightarrow> error + (Component \<times> string list)" where
  \<comment> \<open>Returns the component and the warnings it printed. \<open>None[n:]\<close> raises
      \<open>TypeError\<close>.\<close>
  "Component_init env hp cp pkg =
     (if \<not> (truthy hp \<or> truthy cp) then Inl (AssertionError [])
      else (case (if truthy hp then hp else cp) of
              None \<Rightarrow> Inl TypeError
            | Some f \<Rightarrow>
                (let nm = strip_ext (drop (length (root pkg) + 1) f);
                     warnings =
                       (if \<not> truthy hp
                        then [''warning: incomplete component: missing header: '' @ nm @ '' in ''
                                @ pkg_name pkg @ ''.'' @ py_str (pkg_group pkg)]
                        else [])
                 in case grep_opt env hp of
                      Inl e \<Rightarrow> Inl e
                    | Inr in_h \<Rightarrow>
                        (case grep_opt env cp of
                           Inl e \<Rightarrow> Inl e
                         | Inr in_c \<Rightarrow>
                             Inr (\<lparr>name = nm,
                                   hpath = hp,
                                   comp_hfile = (if \<not> truthy hp then None else map_option basename hp),
                                   cpath = cp,
                                   package = pkg,
                                   dep_internal_components = {},
                                   dep_external_components = {},
                                   includes_in_h = in_h,
                                   includes_in_c = in_c\<rparr>,
                                  warnings)))))"

definition check_include_issues :: "Component \<Rightarrow> string list" where
  \<comment> \<open>the warnings that \<open>Component.check_include_issues\<close> prints\<close>
  "check_include_issues c =
     (if \<not> truthy (hpath c) \<or> \<not> truthy (cpath c) then []
      else if comp_hfile c \<notin> set (map (\<lambda>x. Some (basename (hfile x))) (includes_in_c c))
      then [''warning: include issues: missing include: '' @ py_str (cpath c)
              @ '' does not include '' @ py_str (comp_hfile c) @ ''.'']
      else (case includes_in_c c of
              [] \<Rightarrow> []
            | x # _ \<Rightarrow>
                if comp_hfile c \<noteq> Some (basename (hfile x))
                then [''warning: include issues: include order: '' @ py_str (comp_hfile c)
                        @ '' should be the first include in '' @ py_str (cpath c) @ ''.'']
                else []))"

section \<open>The dependency analysis\<close>

text \<open>
  \<open>internal_components\<close> maps the attribute \<open>hfile\<close> of a component to the key of that
  component in \<open>components\<close>. \<open>stderr\<close> is the text that \<open>warn\<close> has printed so far.
\<close>

record DependencyAnalysis =
  config_file :: string
  components :: "(string, Component) dict"
  external_components :: "(string, ExternalComponent) dict"
  internal_components :: "(string option, string) dict"
  internal_hfiles :: "(string, string) dict"
  external_groups :: "(string option, PackageGroup) dict"
  internal_groups :: "(string option, PackageGroup) dict"
  stderr :: "string list"

definition warn :: "string list \<Rightarrow> DependencyAnalysis \<Rightarrow> DependencyAnalysis" where
  "warn msgs s = s\<lparr>stderr := stderr s @ msgs\<rparr>"

subsection \<open>The configuration\<close>

definition get :: "xml \<Rightarrow> string \<Rightarrow> string option" where
  "get e k = map_of (attrib e) k"

definition findall :: "xml \<Rightarrow> string \<Rightarrow> xml list" where
  "findall e t = filter (\<lambda>c. tag c = t) (children e)"

definition add_named_package :: "os_env \<Rightarrow> xml \<Rightarrow> PackageGroup \<Rightarrow> error + PackageGroup" where
  "add_named_package env pkg_element grp =
     map_sum id snd (Package_init env (map elem_text (findall pkg_element ''path'')) grp
                       (get pkg_element ''name''))"

definition add_path_package :: "os_env \<Rightarrow> xml \<Rightarrow> PackageGroup \<Rightarrow> error + PackageGroup" where
  "add_path_package env pkg_element grp =
     map_sum id snd (Package_init env [elem_text pkg_element] grp None)"

definition add_package_group ::
  "os_env \<Rightarrow> xml \<Rightarrow> (string option, PackageGroup) dict \<Rightarrow> error + (string option, PackageGroup) dict" where
  "add_package_group env pkg_group_element pkg_groups =
     (let group_name = get pkg_group_element ''name'';
          group_path = get pkg_group_element ''path''
      in if map_of pkg_groups group_name \<noteq> None
         then Inl (InvalidArgumentError (''Redefinition of '' @ py_str group_name @ '' group''))
         else (case PackageGroup_init env group_name group_path of
                 Inl e \<Rightarrow> Inl e
               | Inr g0 \<Rightarrow>
                   (case fold_err (add_named_package env) (findall pkg_group_element ''package'') g0 of
                      Inl e \<Rightarrow> Inl e
                    | Inr g1 \<Rightarrow>
                        (case fold_err (add_path_package env) (findall pkg_group_element ''path'') g1 of
                           Inl e \<Rightarrow> Inl e
                         | Inr g2 \<Rightarrow> Inr (AList.update group_name g2 pkg_groups)))))"

definition parse_group :: "os_env \<Rightarrow> xml \<Rightarrow> DependencyAnalysis \<Rightarrow> error + DependencyAnalysis" where
  \<comment> \<open>the body of the loop of \<open>__parse_xml_config\<close>\<close>
  "parse_group env pkg_group_element s =
     (let pkg_role = get pkg_group_element ''role''
      in if \<not> (pkg_role = None \<or> pkg_role = Some ''external'' \<or> pkg_role = Some ''internal'')
         then Inl (AssertionError [])
         else if pkg_role = Some ''external''
         then map_sum id (\<lambda>gs. s\<lparr>external_groups := gs\<rparr>)
                (add_package_group env pkg_group_element (external_groups s))
         else map_sum id (\<lambda>gs. s\<lparr>internal_groups := gs\<rparr>)
                (add_package_group env pkg_group_element (internal_groups s)))"

definition parse_xml_config :: "os_env \<Rightarrow> string \<Rightarrow> DependencyAnalysis \<Rightarrow> error + DependencyAnalysis" where
  "parse_xml_config env cfg s =
     (case xml_parse env cfg of
        Inl e \<Rightarrow> Inl e
      | Inr root_element \<Rightarrow> fold_err (parse_group env) (findall root_element ''package-group'') s)"

definition DependencyAnalysis_init :: "os_env \<Rightarrow> string \<Rightarrow> error + DependencyAnalysis" where
  "DependencyAnalysis_init env cfg =
     parse_xml_config env cfg
       \<lparr>config_file = cfg, components = [], external_components = [], internal_components = [],
        internal_hfiles = [], external_groups = [], internal_groups = [], stderr = []\<rparr>"

subsection \<open>Pairing files into components\<close>

fun collect_files ::
  "os_env \<Rightarrow> string list
     \<Rightarrow> ((string, string) dict \<times> (string, string) dict) \<times> (string, string) dict
     \<Rightarrow> error + (((string, string) dict \<times> (string, string) dict) \<times> (string, string) dict)" where
  \<comment> \<open>the loop over \<open>package.paths\<close> in \<open>make_components\<close>, on \<open>((hbases, hfiles), cbases)\<close>\<close>
  "collect_files env [] d = Inr d"
| "collect_files env (src_path # ps) d =
     (let found = find_hfiles env src_path (fst d)
      in case find_cfiles env src_path (snd d) of
           Inl e \<Rightarrow> Inl e
         | Inr cbases \<Rightarrow> collect_files env ps (found, cbases))"

definition index_hfiles :: "(string, string) dict \<Rightarrow> (string, string) dict \<Rightarrow> (string, string) dict" where
  \<comment> \<open>the loop that enters the headers of a package into \<open>internal_hfiles\<close>\<close>
  "index_hfiles hfiles internal =
     fold (\<lambda>(hf, hp) m. if map_of m hf = None then AList.update hf hp m else m) hfiles internal"

fun construct_paired ::
  "os_env \<Rightarrow> Package \<Rightarrow> (string, string) dict \<Rightarrow> (string, string) dict \<times> DependencyAnalysis
     \<Rightarrow> error + ((string, string) dict \<times> DependencyAnalysis)" where
  \<comment> \<open>the first loop of \<open>__construct_components\<close>, over the items of \<open>hbases\<close>, on
      \<open>cbases\<close> and the analysis\<close>
  "construct_paired env pkg [] acc = Inr acc"
| "construct_paired env pkg (kv # hbases) acc =
     (let key = fst kv;
          cp = map_of (fst acc) key;
          cbases = (if cp \<noteq> None then AList.delete key (fst acc) else fst acc);
          s = snd acc
      in if map_of (components s) key \<noteq> None then Inl (AssertionError [])
         else (case Component_init env (Some (snd kv)) cp pkg of
                 Inl e \<Rightarrow> Inl e
               | Inr (component, warnings) \<Rightarrow>
                   construct_paired env pkg hbases
                     (cbases,
                      (warn warnings s)
                        \<lparr>components := AList.update key component (components s),
                         internal_components :=
                           AList.update (comp_hfile component) key (internal_components s)\<rparr>)))"

fun construct_unpaired ::
  "os_env \<Rightarrow> Package \<Rightarrow> (string, string) dict \<Rightarrow> DependencyAnalysis \<Rightarrow> error + DependencyAnalysis" where
  \<comment> \<open>the second loop of \<open>__construct_components\<close>, over the items left in \<open>cbases\<close>\<close>
  "construct_unpaired env pkg [] s = Inr s"
| "construct_unpaired env pkg (kv # cbases) s =
     (if map_of (components s) (fst kv) \<noteq> None then Inl (AssertionError [])
      else (case Component_init env None (Some (snd kv)) pkg of
              Inl e \<Rightarrow> Inl e
            | Inr (component, warnings) \<Rightarrow>
                construct_unpaired env pkg cbases
                  ((warn warnings s)\<lparr>components := AList.update (fst kv) component (components s)\<rparr>)))"

definition construct_components ::
  "os_env \<Rightarrow> Package \<Rightarrow> (string, string) dict \<Rightarrow> (string, string) dict \<Rightarrow> DependencyAnalysis
     \<Rightarrow> error + DependencyAnalysis" where
  "construct_components env pkg hbases cbases s =
     (case construct_paired env pkg hbases (cbases, s) of
        Inl e \<Rightarrow> Inl e
      | Inr (cbases', s') \<Rightarrow> construct_unpaired env pkg cbases' s')"

definition make_package :: "os_env \<Rightarrow> Package \<Rightarrow> DependencyAnalysis \<Rightarrow> error + DependencyAnalysis" where
  \<comment> \<open>the body of the loops of \<open>make_components\<close>, for one package\<close>
  "make_package env pkg s =
     (case collect_files env (paths pkg) (([], []), []) of
        Inl e \<Rightarrow> Inl e
      | Inr ((hbases, hfiles), cbases) \<Rightarrow>
          construct_components env pkg hbases cbases
            (s\<lparr>internal_hfiles := index_hfiles hfiles (internal_hfiles s)\<rparr>))"

definition all_packages :: "(string option, PackageGroup) dict \<Rightarrow> Package list" where
  \<comment> \<open>the packages in the order of the nested loops over groups and their packages\<close>
  "all_packages groups = concat (map (\<lambda>g. map snd (packages (snd g))) groups)"

definition make_components :: "os_env \<Rightarrow> DependencyAnalysis \<Rightarrow> error + DependencyAnalysis" where
  "make_components env s = fold_err (make_package env) (all_packages (internal_groups s)) s"

subsection \<open>Resolving includes\<close>

definition find_in :: "os_env \<Rightarrow> string \<Rightarrow> string \<Rightarrow> string option" where
  \<comment> \<open>\<open>_find_in\<close>: the path assigned to \<open>include.hpath\<close> when the file is found\<close>
  "find_in env hf dir_path =
     map_option (\<lambda>e. join (fst e) hf) (List.find (\<lambda>e. hf \<in> set (snd e)) (walk env dir_path))"

fun first_some :: "('a \<Rightarrow> 'b option) \<Rightarrow> 'a list \<Rightarrow> 'b option" where
  \<comment> \<open>a loop that returns at the first hit\<close>
  "first_some f [] = None"
| "first_some f (x # xs) = (case f x of Some y \<Rightarrow> Some y | None \<Rightarrow> first_some f xs)"

definition find_external_component ::
  "os_env \<Rightarrow> string \<Rightarrow> (string option, PackageGroup) dict \<Rightarrow> (string \<times> ExternalComponent) option" where
  \<comment> \<open>\<open>_find_external_component\<close>: the path found and the new external component\<close>
  "find_external_component env hf groups =
     first_some (\<lambda>grp.
       first_some (\<lambda>pkg.
         first_some (\<lambda>dir_path.
           map_option (\<lambda>p. (p, \<lparr>ext_hpath = hf, ext_package = pkg\<rparr>)) (find_in env hf dir_path))
           (paths pkg))
         (map snd (packages grp)))
       (map snd groups)"

definition add_internal :: "string \<Rightarrow> string \<Rightarrow> DependencyAnalysis \<Rightarrow> DependencyAnalysis" where
  \<comment> \<open>\<open>component.dep_internal_components.add(dep_component)\<close> for the component at \<open>key\<close>\<close>
  "add_internal key dep s =
     s\<lparr>components :=
         AList.map_entry key
           (\<lambda>c. c\<lparr>dep_internal_components := insert dep (dep_internal_components c)\<rparr>)
           (components s)\<rparr>"

definition add_external :: "string \<Rightarrow> ExternalComponent \<Rightarrow> DependencyAnalysis \<Rightarrow> DependencyAnalysis" where
  "add_external key dep s =
     s\<lparr>components :=
         AList.map_entry key
           (\<lambda>c. c\<lparr>dep_external_components := insert dep (dep_external_components c)\<rparr>)
           (components s)\<rparr>"

definition locate ::
  "os_env \<Rightarrow> Include \<Rightarrow> string \<times> Component \<Rightarrow> DependencyAnalysis
     \<Rightarrow> bool \<times> Include \<times> DependencyAnalysis" where
  \<comment> \<open>\<open>DependencyAnalysis.locate\<close>: the dependent component is given by its key and its
      object; the result is the returned flag, the include with its \<open>hpath\<close>, and the
      analysis. A key in \<open>internal_components\<close> is always a key of \<open>components\<close>.\<close>
  "locate env inc kc s =
     (let hf = basename (hfile inc);
          key = fst kc;
          component = snd kc
      in if Some hf = comp_hfile component
         then (True, inc\<lparr>inc_hpath := hpath component\<rparr>, s)
         else (case map_of (internal_components s) (Some hf) of
                 Some dep \<Rightarrow>
                   (True,
                    inc\<lparr>inc_hpath := (case map_of (components s) dep of
                                         None \<Rightarrow> None
                                       | Some dep_component \<Rightarrow> hpath dep_component)\<rparr>,
                    add_internal key dep s)
               | None \<Rightarrow>
                   (case map_of (external_components s) hf of
                      Some dep_component \<Rightarrow>
                        (True, inc\<lparr>inc_hpath := Some (ext_hpath dep_component)\<rparr>,
                         add_external key dep_component s)
                    | None \<Rightarrow>
                        (case find_external_component env hf (external_groups s) of
                           Some (p, dep_component) \<Rightarrow>
                             (True, inc\<lparr>inc_hpath := Some p\<rparr>,
                              add_external key dep_component
                                (s\<lparr>external_components :=
                                     AList.update hf dep_component (external_components s)\<rparr>))
                         | None \<Rightarrow> (False, inc, s)))))"

fun locate_all ::
  "os_env \<Rightarrow> string \<times> Component \<Rightarrow> Include list \<Rightarrow> DependencyAnalysis
     \<Rightarrow> Include list \<times> DependencyAnalysis" where
  \<comment> \<open>the inner loop of \<open>analyze\<close> over a list of includes\<close>
  "locate_all env kc [] s = ([], s)"
| "locate_all env kc (inc # incs) s =
     (case locate env inc kc s of
        (found, inc', s1) \<Rightarrow>
          (let s2 = (if \<not> found
                     then warn [''warning: include issues: header not found: '' @ Include_str inc'] s1
                     else s1)
           in case locate_all env kc incs s2 of (incs', s3) \<Rightarrow> (inc' # incs', s3)))"

definition analyze_component :: "os_env \<Rightarrow> string \<times> Component \<Rightarrow> DependencyAnalysis \<Rightarrow> DependencyAnalysis" where
  \<comment> \<open>the body of the outer loop of \<open>analyze\<close>: the includes of the header, then those of
      the implementation file, then the check\<close>
  "analyze_component env kc s =
     (case locate_all env kc (includes_in_h (snd kc)) s of
        (in_h, s1) \<Rightarrow>
          (case locate_all env kc (includes_in_c (snd kc)) s1 of
             (in_c, s2) \<Rightarrow>
               warn (check_include_issues ((snd kc)\<lparr>includes_in_h := in_h, includes_in_c := in_c\<rparr>))
                 (s2\<lparr>components :=
                      AList.map_entry (fst kc)
                        (\<lambda>c. c\<lparr>includes_in_h := in_h, includes_in_c := in_c\<rparr>)
                        (components s2)\<rparr>)))"

definition analyze :: "os_env \<Rightarrow> DependencyAnalysis \<Rightarrow> DependencyAnalysis" where
  "analyze env s = fold (analyze_component env) (components s) s"

subsection \<open>The program\<close>

text \<open>
  After the analysis \<open>main\<close> prints the dependencies and lets the module \<open>graph\<close>,
  which is not part of the source, report on the graphs and write its files. This last
  phase is the parameter \<open>report\<close>: it gets the analysis and returns the exception it
  raises, if any. The guard around \<open>main\<close> catches three classes of exception and exits
  with status 1; any other exception leaves the program through the interpreter, which
  prints a traceback.
\<close>

definition main ::
  "os_env \<Rightarrow> (DependencyAnalysis \<Rightarrow> error + unit) \<Rightarrow> bool \<Rightarrow> string
     \<Rightarrow> error + DependencyAnalysis option" where
  "main env report version cfg =
     (if version then Inr None
      else (case DependencyAnalysis_init env cfg of
              Inl e \<Rightarrow> Inl e
            | Inr analysis \<Rightarrow>
                (case make_components env analysis of
                   Inl e \<Rightarrow> Inl e
                 | Inr analysis' \<Rightarrow>
                     (case report (analyze env analysis') of
                        Inl e \<Rightarrow> Inl e
                      | Inr _ \<Rightarrow> Inr (Some (analyze env analysis'))))))"

datatype outcome = Exit nat | Traceback error

definition guard :: "error + 'a \<Rightarrow> string list \<times> outcome" where
  \<comment> \<open>what the handlers print with \<open>warn\<close>, and how the process ends\<close>
  "guard r =
     (case r of
        Inr _ \<Rightarrow> ([], Exit 0)
      | Inl (IOError msg) \<Rightarrow> ([''IO Error:'' @ [CHR 0x0A] @ msg], Exit 1)
      | Inl (XmlError msg) \<Rightarrow> ([''Configuration XML Error:'' @ [CHR 0x0A] @ msg], Exit 1)
      | Inl (InvalidArgumentError msg) \<Rightarrow> ([''Invalid Argument Error:'' @ [CHR 0x0A] @ msg], Exit 1)
      | Inl e \<Rightarrow> ([], Traceback e))"

definition script ::
  "os_env \<Rightarrow> (DependencyAnalysis \<Rightarrow> error + unit) \<Rightarrow> bool \<Rightarrow> string
     \<Rightarrow> string list \<times> outcome" where
  "script env report version cfg = guard (main env report version cfg)"

subsection \<open>Reading dependency edges\<close>

definition internal_deps :: "DependencyAnalysis \<Rightarrow> string \<Rightarrow> string set" where
  \<comment> \<open>\<open>dep_internal_components\<close> of the component stored at a key\<close>
  "internal_deps s key =
     (case map_of (components s) key of None \<Rightarrow> {} | Some c \<Rightarrow> dep_internal_components c)"

definition external_deps :: "DependencyAnalysis \<Rightarrow> string \<Rightarrow> ExternalComponent set" where
  \<comment> \<open>\<open>dep_external_components\<close> of the component stored at a key\<close>
  "external_deps s key =
     (case map_of (components s) key of None \<Rightarrow> {} | Some c \<Rightarrow> dep_external_components c)"



definition header_entries :: "os_env \<Rightarrow> Package \<Rightarrow> (string \<times> string) list" where
  \<comment> \<open>the header files of a package, name and path, in the order in which the loop over
      \<open>package.paths\<close> meets them\<close>
  "header_entries env pkg = concat (map (\<lambda>p. find_files env p RE_HFILE) (paths pkg))"

definition impl_entries :: "os_env \<Rightarrow> Package \<Rightarrow> (string \<times> string) list" where
  \<comment> \<open>the implementation files of a package, in the same order\<close>
  "impl_entries env pkg = concat (map (\<lambda>p. find_files env p RE_CFILE) (paths pkg))"

definition by_base :: "(string \<times> string) list \<Rightarrow> (string \<times> string) list" where
  \<comment> \<open>the entries keyed by the name without its extension\<close>
  "by_base es = map (\<lambda>e. (strip_ext (fst e), snd e)) es"

definition empty_analysis :: DependencyAnalysis where
  "empty_analysis =
     \<lparr>config_file = [], components = [], external_components = [], internal_components = [],
      internal_hfiles = [], external_groups = [], internal_groups = [], stderr = []\<rparr>"

definition register :: "string \<Rightarrow> Component \<Rightarrow> string list \<Rightarrow> DependencyAnalysis \<Rightarrow> DependencyAnalysis" where
  \<comment> \<open>the analysis after the first loop of \<open>__construct_components\<close> has stored a
      component\<close>
  "register key c ws s =
     (warn ws s)
       \<lparr>components := AList.update key c (components s),
        internal_components := AList.update (comp_hfile c) key (internal_components s)\<rparr>"

definition register_unpaired ::
  "string \<Rightarrow> Component \<Rightarrow> string list \<Rightarrow> DependencyAnalysis \<Rightarrow> DependencyAnalysis" where
  \<comment> \<open>the same for the second loop\<close>
  "register_unpaired key c ws s =
     (warn ws s)\<lparr>components := AList.update key c (components s)\<rparr>"

definition bases :: "os_env \<Rightarrow> Package \<Rightarrow> string set" where
  \<comment> \<open>the names without extension of the header and implementation files of a package\<close>
  "bases env pkg = (\<lambda>e. strip_ext (fst e)) ` set (header_entries env pkg @ impl_entries env pkg)"

definition pairing_error :: "os_env \<Rightarrow> error \<Rightarrow> bool" where
  \<comment> \<open>the exceptions that pairing can raise: a failed assertion, or the \<open>IOError\<close> of a
      file that cannot be read\<close>
  "pairing_error env e =
     (e = AssertionError [] \<or> (\<exists>m f. e = IOError m \<and> read_lines env f = Inl m))"

definition hfile_of :: "DependencyAnalysis \<Rightarrow> string \<Rightarrow> string option option" where
  \<comment> \<open>the attribute \<open>hfile\<close> of the component stored at a key, when there is one\<close>
  "hfile_of s key = map_option comp_hfile (map_of (components s) key)"

definition hfile_indexed :: "DependencyAnalysis \<Rightarrow> bool" where
  \<comment> \<open>every entry of \<open>internal_components\<close> leads to a component with that \<open>hfile\<close>\<close>
  "hfile_indexed s =
     list_all (\<lambda>hk. hfile_of s (snd hk) = Some (fst hk)) (internal_components s)"

definition no_self_edges :: "DependencyAnalysis \<Rightarrow> bool" where
  "no_self_edges s = list_all (\<lambda>kc. fst kc \<notin> dep_internal_components (snd kc)) (components s)"

definition fresh_deps :: "DependencyAnalysis \<Rightarrow> bool" where
  \<comment> \<open>no component has an internal dependency yet\<close>
  "fresh_deps s = list_all (\<lambda>kc. dep_internal_components (snd kc) = {}) (components s)"

definition constructed :: "DependencyAnalysis \<Rightarrow> bool" where
  \<comment> \<open>what holds of an analysis while its components are being constructed\<close>
  "constructed s = (distinct (map fst (components s)) \<and> hfile_indexed s \<and> fresh_deps s)"

definition analysed :: "DependencyAnalysis \<Rightarrow> bool" where
  \<comment> \<open>what holds of an analysis while its includes are being resolved\<close>
  "analysed s = (distinct (map fst (components s)) \<and> hfile_indexed s \<and> no_self_edges s)"

definition same_index :: "DependencyAnalysis \<Rightarrow> DependencyAnalysis \<Rightarrow> bool" where
  \<comment> \<open>two analyses with the same keys, the same \<open>hfile\<close> at each key and the same
      \<open>internal_components\<close>\<close>
  "same_index s s' =
     (internal_components s' = internal_components s \<and> hfile_of s' = hfile_of s
      \<and> map fst (components s') = map fst (components s))"

subsection \<open>Forgetting the delimiters of includes\<close>

definition erase_inc :: "Include \<Rightarrow> Include" where
  "erase_inc i = i\<lparr>with_quotes := False\<rparr>"

definition erase_comp :: "Component \<Rightarrow> Component" where
  "erase_comp c =
     c\<lparr>includes_in_h := map erase_inc (includes_in_h c),
       includes_in_c := map erase_inc (includes_in_c c)\<rparr>"

definition erase_entry :: "string \<times> Component \<Rightarrow> string \<times> Component" where
  "erase_entry kc = (fst kc, erase_comp (snd kc))"

definition erase :: "DependencyAnalysis \<Rightarrow> DependencyAnalysis" where
  \<comment> \<open>the analysis without the flags \<open>with_quotes\<close> and without the text of the
      warnings printed so far; their number is kept\<close>
  "erase s =
     s\<lparr>components := map erase_entry (components s), stderr := map (\<lambda>w. []) (stderr s)\<rparr>"

section \<open>An example project\<close>

text \<open>
  A small project for evaluating the model: the internal group \<open>core\<close> at \<open>/proj\<close>
  with the packages \<open>lib\<close> and \<open>app\<close>, and the external group \<open>third\<close> at \<open>/ext\<close>
  with the package \<open>boost\<close>. The groups and packages are given as the configuration
  describes them, each package with the common directory of its paths as its root.
\<close>

definition quoted :: "string \<Rightarrow> string" where
  "quoted h = ''#include '' @ [CHR 0x22] @ h @ [CHR 0x22, CHR 0x0A]"

definition angled :: "string \<Rightarrow> string" where
  "angled h = ''#include <'' @ h @ ''>'' @ [CHR 0x0A]"

definition example_config :: xml where
  "example_config =
     Element ''config'' [] None
       [Element ''package-group'' [(''name'', ''core''), (''path'', ''/proj'')] None
          [Element ''path'' [] (Some ''lib'') [],
           Element ''path'' [] (Some ''app'') []],
        Element ''package-group'' [(''name'', ''third''), (''path'', ''/ext''), (''role'', ''external'')] None
          [Element ''package'' [(''name'', ''boost'')] None
             [Element ''path'' [] (Some ''boost'') []]]]"

definition example_env :: os_env where
  "example_env =
     \<lparr>isfile = (\<lambda>p. False),
      isdir = (\<lambda>p. p \<in> set [''/proj'', ''/proj/lib'', ''/proj/app'', ''/ext'', ''/ext/boost'']),
      walk = (\<lambda>p. if p = ''/proj/lib''
                   then [(''/proj/lib'', [''a.h'', ''a.c'', ''b.h'', ''b.c'', ''README''])]
                   else if p = ''/proj/app'' then [(''/proj/app'', [''main.c''])]
                   else if p = ''/ext/boost''
                   then [(''/ext/boost'', []), (''/ext/boost/any'', [''any.hpp''])]
                   else []),
      read_lines = (\<lambda>p. if p = ''/proj/lib/a.c'' then Inr [quoted ''a.h'']
                         else if p = ''/proj/lib/b.c''
                         then Inr [quoted ''a.h'', quoted ''b.h'', angled ''nowhere.h'']
                         else if p = ''/proj/app/main.c''
                         then Inr [angled ''boost/any.hpp'', quoted ''b.h'', ''int main();'']
                         else Inr []),
      normpath = (\<lambda>p. p),
      abspath = (\<lambda>p. p),
      xml_parse = (\<lambda>p. if p = ''cppdep.xml'' then Inr example_config
                        else if p = ''broken.xml'' then Inl (ParseError ''unclosed token: line 1, column 0'')
                        else Inl (IOError ''No such file or directory''))\<rparr>"

definition example_package :: Package where
  "example_package =
     \<lparr>pkg_name = ''lib'', paths = [''/proj/lib''], pkg_group = Some ''core'', root = ''/proj/lib''\<rparr>"

definition example_app :: Package where
  "example_app =
     \<lparr>pkg_name = ''app'', paths = [''/proj/app''], pkg_group = Some ''core'', root = ''/proj/app''\<rparr>"

definition example_boost :: Package where
  "example_boost =
     \<lparr>pkg_name = ''boost'', paths = [''/ext/boost''], pkg_group = Some ''third'', root = ''/ext/boost''\<rparr>"

definition example_group :: PackageGroup where
  \<comment> \<open>the group \<open>core\<close> before its packages are registered\<close>
  "example_group = \<lparr>grp_name = Some ''core'', grp_path = ''/proj'', packages = []\<rparr>"

definition widget :: "string option \<Rightarrow> string option \<Rightarrow> Include list \<Rightarrow> Component" where
  \<comment> \<open>a component \<open>widget\<close> with the given paths and the given includes in its
      implementation file\<close>
  "widget hp cp incs =
     \<lparr>name = ''widget'', hpath = hp, comp_hfile = map_option basename hp, cpath = cp,
      package = example_package, dep_internal_components = {}, dep_external_components = {},
      includes_in_h = [], includes_in_c = incs\<rparr>"

definition example_configured :: DependencyAnalysis where
  \<comment> \<open>the analysis of the example project as configured, before pairing\<close>
  "example_configured =
     \<lparr>config_file = ''cppdep.xml'', components = [], external_components = [],
      internal_components = [], internal_hfiles = [],
      external_groups =
        [(Some ''third'',
          \<lparr>grp_name = Some ''third'', grp_path = ''/ext'', packages = [(''boost'', example_boost)]\<rparr>)],
      internal_groups =
        [(Some ''core'',
          example_group\<lparr>packages := [(''lib'', example_package), (''app'', example_app)]\<rparr>)],
      stderr = []\<rparr>"

definition example_analysis :: DependencyAnalysis where
  \<comment> \<open>the analysis of the example project after \<open>make_components\<close>\<close>
  "example_analysis =
     (case make_components example_env example_configured of
        Inl _ \<Rightarrow> example_configured
      | Inr s \<Rightarrow> s)"

definition no_report :: "DependencyAnalysis \<Rightarrow> error + unit" where
  \<comment> \<open>a report phase that raises nothing\<close>
  "no_report s = Inr ()"

definition example_component :: "string \<Rightarrow> Component" where
  \<comment> \<open>the component of the example project stored at a key\<close>
  "example_component key =
     (case map_of (components example_analysis) key of
        Some c \<Rightarrow> c
      | None \<Rightarrow> widget None None [])"


definition dup_env :: os_env where
  \<comment> \<open>a package directory with two headers named \<open>a.h\<close>, in \<open>x\<close> and in \<open>y\<close>\<close>
  "dup_env =
     \<lparr>isfile = (\<lambda>p. False),
      isdir = (\<lambda>p. True),
      walk = (\<lambda>p. if p = ''/proj/lib''
                   then [(''/proj/lib'', []), (''/proj/lib/x'', [''a.h'']), (''/proj/lib/y'', [''a.h''])]
                   else []),
      read_lines = (\<lambda>p. Inr []),
      normpath = (\<lambda>p. p),
      abspath = (\<lambda>p. p),
      xml_parse = (\<lambda>p. Inl (IOError ''No such file or directory''))\<rparr>"

definition dup_result :: DependencyAnalysis where
  "dup_result =
     (case make_package dup_env example_package empty_analysis of
        Inl _ \<Rightarrow> empty_analysis
      | Inr s \<Rightarrow> s)"

definition files_env :: "(string \<Rightarrow> (string \<times> string list) list) \<Rightarrow> os_env" where
  \<comment> \<open>a file system of empty, readable files with the given directory walks\<close>
  "files_env w =
     \<lparr>isfile = (\<lambda>p. False), isdir = (\<lambda>p. True), walk = w, read_lines = (\<lambda>p. Inr []),
      normpath = (\<lambda>p. p), abspath = (\<lambda>p. p),
      xml_parse = (\<lambda>p. Inl (IOError ''No such file or directory''))\<rparr>"

definition clash_env :: os_env where
  \<comment> \<open>one package directory with the implementation files \<open>a.c\<close> and \<open>a.cpp\<close>\<close>
  "clash_env =
     files_env (\<lambda>p. if p = ''/proj/lib'' then [(''/proj/lib'', [''a.c'', ''b.c'', ''a.cpp''])] else [])"

definition cross_env :: os_env where
  \<comment> \<open>\<open>a.h\<close> in the package \<open>lib\<close> and \<open>a.cpp\<close> in the package \<open>app\<close>\<close>
  "cross_env =
     files_env (\<lambda>p. if p = ''/proj/lib'' then [(''/proj/lib'', [''a.h''])]
                     else if p = ''/proj/app'' then [(''/proj/app'', [''a.cpp''])]
                     else [])"

definition two_packages :: DependencyAnalysis where
  \<comment> \<open>an analysis whose configuration has the packages \<open>lib\<close> and \<open>app\<close>\<close>
  "two_packages =
     empty_analysis
       \<lparr>internal_groups :=
          [(Some ''core'',
            example_group\<lparr>packages := [(''lib'', example_package), (''app'', example_app)]\<rparr>)]\<rparr>"

definition flip_inc :: "Include \<Rightarrow> Include" where
  "flip_inc i = i\<lparr>with_quotes := \<not> with_quotes i\<rparr>"

definition example_flipped :: DependencyAnalysis where
  \<comment> \<open>the example analysis with every include written with the other delimiters\<close>
  "example_flipped =
     example_analysis
       \<lparr>components :=
          map (\<lambda>kc. (fst kc,
                      (snd kc)\<lparr>includes_in_h := map flip_inc (includes_in_h (snd kc)),
                                includes_in_c := map flip_inc (includes_in_c (snd kc))\<rparr>))
            (components example_analysis)\<rparr>"

section \<open>The include scanner\<close>

lemma delimited_Some:
  assumes "delimited q rest = Some h"
  shows "h \<noteq> [] \<and> CHR 0x0A \<notin> set h"
proof -
  define body where "body = takeWhile (\<lambda>c. c \<noteq> CHR 0x0A) rest"
  define tail where "tail = takeWhile (\<lambda>c. c \<noteq> q) (rev body)"
  from assms have c: "Suc (length tail) < length body"
    and h: "h = take (length body - Suc (length tail)) body"
    by (auto simp: delimited_def Let_def body_def tail_def split: if_splits)
  from c h have "h \<noteq> []" by auto
  moreover have "CHR 0x0A \<notin> set body"
    unfolding body_def by (auto dest: set_takeWhileD)
  then have "CHR 0x0A \<notin> set h"
    unfolding h by (auto dest: in_set_takeD)
  ultimately show ?thesis by simp
qed

lemma delimited_closed:
  assumes "h \<noteq> []" "CHR 0x0A \<notin> set h" "q \<noteq> CHR 0x0A" "eol = [] \<or> eol = [CHR 0x0A]"
  shows "delimited q (h @ [q] @ eol) = Some h"
proof -
  have all: "takeWhile (\<lambda>c. c \<noteq> CHR 0x0A) h = h"
    using assms(2) by (induction h) auto
  have "takeWhile (\<lambda>c. c \<noteq> CHR 0x0A) (h @ [q] @ eol) = h @ takeWhile (\<lambda>c. c \<noteq> CHR 0x0A) ([q] @ eol)"
    using assms(2) by (induction h) auto
  also have "takeWhile (\<lambda>c. c \<noteq> CHR 0x0A) ([q] @ eol) = [q]"
    using assms(3,4) by (elim disjE) simp_all
  finally have body: "takeWhile (\<lambda>c. c \<noteq> CHR 0x0A) (h @ [q] @ eol) = h @ [q]" .
  have "delimited q (h @ [q] @ eol)
          = (let body = h @ [q]; tail = takeWhile (\<lambda>c. c \<noteq> q) (rev body)
             in if q \<in> set body \<and> Suc (length tail) < length body
                then Some (take (length body - Suc (length tail)) body) else None)"
    unfolding delimited_def body ..
  also have "\<dots> = Some h"
    using assms(1) by (simp add: Let_def)
  finally show ?thesis .
qed

lemma Include_search_Some:
  assumes "Include_search line = Some i"
  shows "hfile i \<noteq> [] \<and> CHR 0x0A \<notin> set (hfile i) \<and> inc_hpath i = None"
proof -
  define l2 where "l2 = dropWhile is_space (drop 8 (dropWhile is_space line))"
  from assms have c: "(case l2 of
                 [] \<Rightarrow> None
               | c # rest \<Rightarrow>
                   if c = CHR ''<'' then map_option (\<lambda>h. Include_init h False) (delimited (CHR ''>'') rest)
                   else if c = CHR 0x22 then map_option (\<lambda>h. Include_init h True) (delimited (CHR 0x22) rest)
                   else None) = Some i"
    unfolding Include_search_def Let_def l2_def by (simp split: if_splits)
  then obtain q rest h b where d: "delimited q rest = Some h" and i: "i = Include_init h b"
    by (cases l2) (auto split: if_splits)
  from delimited_Some[OF d] i show ?thesis
    by (simp add: Include_init_def)
qed

lemma Include_search_str:
  assumes "hfile i \<noteq> []" "CHR 0x0A \<notin> set (hfile i)" "inc_hpath i = None"
    and eol: "eol = [] \<or> eol = [CHR 0x0A]"
  shows "Include_search (''#include '' @ Include_str i @ eol) = Some i"
proof (cases "with_quotes i")
  case True
  have "delimited (CHR 0x22) (hfile i @ [CHR 0x22] @ eol) = Some (hfile i)"
    using assms by (intro delimited_closed) auto
  with True assms(3) show ?thesis
    by (simp add: Include_search_def Include_str_def is_space_def Include_init_def)
next
  case False
  have "delimited (CHR ''>'') (hfile i @ ''>'' @ eol) = Some (hfile i)"
    using assms by (intro delimited_closed) auto
  with False assms(3) show ?thesis
    by (simp add: Include_search_def Include_str_def is_space_def Include_init_def)
qed

lemma map_filter_retract:
  assumes "\<And>x. x \<in> set xs \<Longrightarrow> f (g x) = Some x"
  shows "List.map_filter f (map g xs) = xs"
  using assms by (induction xs) (simp_all add: List.map_filter_simps)

lemma Include_grep_elem:
  assumes "Include_grep env file_path = Inr incs" and "i \<in> set incs"
  shows "\<exists>line. Include_search line = Some i"
proof -
  from assms obtain ls where "incs = List.map_filter Include_search ls"
    by (auto simp: Include_grep_def split: sum.splits)
  with assms(2) show ?thesis
    by (auto simp: List.map_filter_def)
qed

text \<open>
  Claim C8. Every include object that the scanner produces from a file is read back
  from the line made of \<open>#include\<close>, a space and the object's string form, with or
  without a line feed at its end, with the same header text and the same flag; and a
  file made of these lines scans to the same list of include objects.
\<close>

theorem scan_roundtrip:
  assumes "Include_grep env file_path = Inr incs"
    and "eol = [] \<or> eol = [CHR 0x0A]"
  shows "(\<forall>i \<in> set incs. Include_search (''#include '' @ Include_str i @ eol) = Some i)
       \<and> (read_lines env' p = Inr (map (\<lambda>i. ''#include '' @ Include_str i @ eol) incs)
            \<longrightarrow> Include_grep env' p = Inr incs)"
proof -
  have one: "Include_search (''#include '' @ Include_str i @ eol) = Some i" if "i \<in> set incs" for i
  proof -
    from Include_grep_elem[OF assms(1) that] obtain line where "Include_search line = Some i" ..
    from Include_search_Some[OF this] assms(2) show ?thesis
      by (intro Include_search_str) auto
  qed
  then have "List.map_filter Include_search (map (\<lambda>i. ''#include '' @ Include_str i @ eol) incs) = incs"
    by (intro map_filter_retract) auto
  with one show ?thesis
    by (simp add: Include_grep_def)
qed


theorem scan_roundtrip_witness:
  "Include_grep example_env ''/proj/app/main.c''
     = Inr [Include_init ''boost/any.hpp'' False, Include_init ''b.h'' True]
   \<and> Include_search (''#include '' @ Include_str (Include_init ''boost/any.hpp'' False) @ [CHR 0x0A])
       = Some (Include_init ''boost/any.hpp'' False)
   \<and> Include_search (''#include '' @ Include_str (Include_init ''b.h'' True) @ [CHR 0x0A])
       = Some (Include_init ''b.h'' True)
   \<and> Include_grep
         (example_env\<lparr>read_lines :=
            \<lambda>p. Inr (map (\<lambda>i. ''#include '' @ Include_str i @ [CHR 0x0A])
                         [Include_init ''boost/any.hpp'' False, Include_init ''b.h'' True])\<rparr>)
         ''copy.c''
       = Inr [Include_init ''boost/any.hpp'' False, Include_init ''b.h'' True]"
proof -
  let ?incs = "[Include_init ''boost/any.hpp'' False, Include_init ''b.h'' True]"
  let ?env' = "example_env\<lparr>read_lines :=
                 \<lambda>p. Inr (map (\<lambda>i. ''#include '' @ Include_str i @ [CHR 0x0A]) ?incs)\<rparr>"
  have g: "Include_grep example_env ''/proj/app/main.c'' = Inr ?incs"
    by code_simp
  have e: "[CHR 0x0A] = [] \<or> [CHR 0x0A] = [CHR 0x0A]"
    by simp
  have r: "read_lines ?env' ''copy.c''
             = Inr (map (\<lambda>i. ''#include '' @ Include_str i @ [CHR 0x0A]) ?incs)"
    by simp
  note t = scan_roundtrip[OF g e, of ?env' "''copy.c''"]
  have a: "\<forall>i \<in> set ?incs. Include_search (''#include '' @ Include_str i @ [CHR 0x0A]) = Some i"
    by (rule t[THEN conjunct1])
  have b: "Include_grep ?env' ''copy.c'' = Inr ?incs"
    by (rule t[THEN conjunct2, THEN mp, OF r])
  have a1: "Include_search (''#include '' @ Include_str (Include_init ''boost/any.hpp'' False) @ [CHR 0x0A])
              = Some (Include_init ''boost/any.hpp'' False)"
    by (rule a[THEN bspec]) simp
  have a2: "Include_search (''#include '' @ Include_str (Include_init ''b.h'' True) @ [CHR 0x0A])
              = Some (Include_init ''b.h'' True)"
    by (rule a[THEN bspec]) simp
  show ?thesis
    by (rule conjI[OF g conjI[OF a1 conjI[OF a2 b]]])
qed

section \<open>The include hygiene check\<close>

lemma warn_fields:
  "components (warn ws s) = components s"
  "external_components (warn ws s) = external_components s"
  "internal_components (warn ws s) = internal_components s"
  "internal_hfiles (warn ws s) = internal_hfiles s"
  "external_groups (warn ws s) = external_groups s"
  "internal_groups (warn ws s) = internal_groups s"
  "stderr (warn ws s) = stderr s @ ws"
  by (simp_all add: warn_def)

text \<open>
  Claim C6. For a component with a header and an implementation file, the check prints
  exactly the \<open>missing include\<close> warning when no include of the implementation file has
  the basename of the component's header, exactly the \<open>include order\<close> warning when one
  has but the first include has another basename, and nothing otherwise; for a component
  without a header or without an implementation file it prints nothing. Printing the
  warnings changes the standard error stream only: the components, and so their
  dependency edges, stay as they are.
\<close>

theorem hygiene_check:
  "(truthy (hpath c) \<and> truthy (cpath c)
      \<and> comp_hfile c \<notin> set (map (\<lambda>x. Some (basename (hfile x))) (includes_in_c c))
     \<longrightarrow> check_include_issues c
           = [''warning: include issues: missing include: '' @ py_str (cpath c)
                @ '' does not include '' @ py_str (comp_hfile c) @ ''.''])
   \<and> (truthy (hpath c) \<and> truthy (cpath c)
      \<and> comp_hfile c \<in> set (map (\<lambda>x. Some (basename (hfile x))) (includes_in_c c))
      \<and> comp_hfile c \<noteq> Some (basename (hfile (hd (includes_in_c c))))
     \<longrightarrow> check_include_issues c
           = [''warning: include issues: include order: '' @ py_str (comp_hfile c)
                @ '' should be the first include in '' @ py_str (cpath c) @ ''.''])
   \<and> (truthy (hpath c) \<and> truthy (cpath c)
      \<and> comp_hfile c \<in> set (map (\<lambda>x. Some (basename (hfile x))) (includes_in_c c))
      \<and> comp_hfile c = Some (basename (hfile (hd (includes_in_c c))))
     \<longrightarrow> check_include_issues c = [])
   \<and> (\<not> truthy (hpath c) \<or> \<not> truthy (cpath c) \<longrightarrow> check_include_issues c = [])
   \<and> components (warn (check_include_issues c) s) = components s
   \<and> external_components (warn (check_include_issues c) s) = external_components s
   \<and> stderr (warn (check_include_issues c) s) = stderr s @ check_include_issues c"
proof (cases "includes_in_c c")
  case Nil
  then show ?thesis
    by (simp add: check_include_issues_def warn_fields)
next
  case (Cons x xs)
  then show ?thesis
    by (simp add: check_include_issues_def warn_fields)
qed

theorem hygiene_check_witness:
  "check_include_issues (widget (Some ''/proj/lib/widget.h'') (Some ''/proj/lib/widget.c'')
                           [Include_init ''other.h'' True])
     = [''warning: include issues: missing include: /proj/lib/widget.c does not include widget.h.'']
   \<and> check_include_issues (widget (Some ''/proj/lib/widget.h'') (Some ''/proj/lib/widget.c'')
                             [Include_init ''other.h'' True, Include_init ''widget.h'' True])
     = [''warning: include issues: include order: widget.h should be the first include in /proj/lib/widget.c.'']
   \<and> check_include_issues (widget (Some ''/proj/lib/widget.h'') (Some ''/proj/lib/widget.c'')
                             [Include_init ''sub/widget.h'' False, Include_init ''other.h'' True])
     = []
   \<and> check_include_issues (widget (Some ''/proj/lib/widget.h'') None []) = []
   \<and> check_include_issues (widget None (Some ''/proj/lib/widget.c'') [Include_init ''other.h'' True]) = []"
proof -
  let ?h = "Some ''/proj/lib/widget.h''" and ?c = "Some ''/proj/lib/widget.c''"
  let ?c1 = "widget ?h ?c [Include_init ''other.h'' True]"
  let ?c2 = "widget ?h ?c [Include_init ''other.h'' True, Include_init ''widget.h'' True]"
  let ?c3 = "widget ?h ?c [Include_init ''sub/widget.h'' False, Include_init ''other.h'' True]"
  let ?c4 = "widget ?h None []"
  let ?c5 = "widget None ?c [Include_init ''other.h'' True]"
  have h1: "truthy (hpath ?c1) \<and> truthy (cpath ?c1)
      \<and> comp_hfile ?c1 \<notin> set (map (\<lambda>x. Some (basename (hfile x))) (includes_in_c ?c1))"
    by code_simp
  have m1: "[''warning: include issues: missing include: '' @ py_str (cpath ?c1)
                @ '' does not include '' @ py_str (comp_hfile ?c1) @ ''.'']
     = [''warning: include issues: missing include: /proj/lib/widget.c does not include widget.h.'']"
    by code_simp
  have h2: "truthy (hpath ?c2) \<and> truthy (cpath ?c2)
      \<and> comp_hfile ?c2 \<in> set (map (\<lambda>x. Some (basename (hfile x))) (includes_in_c ?c2))
      \<and> comp_hfile ?c2 \<noteq> Some (basename (hfile (hd (includes_in_c ?c2))))"
    by code_simp
  have m2: "[''warning: include issues: include order: '' @ py_str (comp_hfile ?c2)
                @ '' should be the first include in '' @ py_str (cpath ?c2) @ ''.'']
     = [''warning: include issues: include order: widget.h should be the first include in /proj/lib/widget.c.'']"
    by code_simp
  have h3: "truthy (hpath ?c3) \<and> truthy (cpath ?c3)
      \<and> comp_hfile ?c3 \<in> set (map (\<lambda>x. Some (basename (hfile x))) (includes_in_c ?c3))
      \<and> comp_hfile ?c3 = Some (basename (hfile (hd (includes_in_c ?c3))))"
    by code_simp
  have h4: "\<not> truthy (hpath ?c4) \<or> \<not> truthy (cpath ?c4)"
    by code_simp
  have h5: "\<not> truthy (hpath ?c5) \<or> \<not> truthy (cpath ?c5)"
    by code_simp
  have r1: "check_include_issues ?c1
     = [''warning: include issues: missing include: /proj/lib/widget.c does not include widget.h.'']"
    by (rule trans[OF hygiene_check[of ?c1, THEN conjunct1, THEN mp, OF h1] m1])
  have r2: "check_include_issues ?c2
     = [''warning: include issues: include order: widget.h should be the first include in /proj/lib/widget.c.'']"
    by (rule trans[OF hygiene_check[of ?c2, THEN conjunct2, THEN conjunct1, THEN mp, OF h2] m2])
  have r3: "check_include_issues ?c3 = []"
    by (rule hygiene_check[of ?c3, THEN conjunct2, THEN conjunct2, THEN conjunct1, THEN mp, OF h3])
  have r4: "check_include_issues ?c4 = []"
    by (rule hygiene_check[of ?c4, THEN conjunct2, THEN conjunct2, THEN conjunct2, THEN conjunct1, THEN mp, OF h4])
  have r5: "check_include_issues ?c5 = []"
    by (rule hygiene_check[of ?c5, THEN conjunct2, THEN conjunct2, THEN conjunct2, THEN conjunct1, THEN mp, OF h5])
  show ?thesis
    by (rule conjI[OF r1 conjI[OF r2 conjI[OF r3 conjI[OF r4 r5]]]])
qed

section \<open>A malformed configuration file\<close>

text \<open>
  Claim C5, on the code. The XML library reports a malformed file with its own
  \<open>ParseError\<close>; the program does not turn it into \<open>XmlError\<close>, and the guard does not
  catch it: nothing is printed with the prefix \<open>Configuration XML Error:\<close>, and the
  exception leaves the program through the interpreter. The handler of \<open>XmlError\<close>
  would print the prefix and exit with status 1.
\<close>

theorem malformed_xml_uncaught:
  "xml_parse example_env ''broken.xml'' = Inl (ParseError ''unclosed token: line 1, column 0'')
   \<and> script example_env no_report False ''broken.xml''
       = ([], Traceback (ParseError ''unclosed token: line 1, column 0''))
   \<and> guard (Inl (XmlError ''unclosed token: line 1, column 0'') :: error + unit)
       = ([''Configuration XML Error:'' @ [CHR 0x0A] @ ''unclosed token: line 1, column 0''], Exit 1)"
  by code_simp

section \<open>Resolving an include\<close>

















lemma locate_self:
  assumes "comp_hfile c = Some (basename (hfile inc))"
  shows "locate env inc (key, c) s = (True, inc\<lparr>inc_hpath := hpath c\<rparr>, s)"
  using assms by (simp add: locate_def)

lemma locate_internal:
  assumes "comp_hfile c \<noteq> Some (basename (hfile inc))"
    and "map_of (internal_components s) (Some (basename (hfile inc))) = Some d"
  shows "locate env inc (key, c) s
           = (True,
              inc\<lparr>inc_hpath := (case map_of (components s) d of None \<Rightarrow> None | Some dc \<Rightarrow> hpath dc)\<rparr>,
              add_internal key d s)"
  using assms by (auto simp: locate_def)

lemma locate_cached:
  assumes "comp_hfile c \<noteq> Some (basename (hfile inc))"
    and "map_of (internal_components s) (Some (basename (hfile inc))) = None"
    and "map_of (external_components s) (basename (hfile inc)) = Some e"
  shows "locate env inc (key, c) s
           = (True, inc\<lparr>inc_hpath := Some (ext_hpath e)\<rparr>, add_external key e s)"
  using assms by (auto simp: locate_def)

lemma locate_found:
  assumes "comp_hfile c \<noteq> Some (basename (hfile inc))"
    and "map_of (internal_components s) (Some (basename (hfile inc))) = None"
    and "map_of (external_components s) (basename (hfile inc)) = None"
    and "find_external_component env (basename (hfile inc)) (external_groups s) = Some (p, e)"
  shows "locate env inc (key, c) s
           = (True, inc\<lparr>inc_hpath := Some p\<rparr>,
              add_external key e
                (s\<lparr>external_components :=
                     AList.update (basename (hfile inc)) e (external_components s)\<rparr>))"
  using assms by (auto simp: locate_def)

lemma locate_unresolved:
  assumes "comp_hfile c \<noteq> Some (basename (hfile inc))"
    and "map_of (internal_components s) (Some (basename (hfile inc))) = None"
    and "map_of (external_components s) (basename (hfile inc)) = None"
    and "find_external_component env (basename (hfile inc)) (external_groups s) = None"
  shows "locate env inc (key, c) s = (False, inc, s)"
  using assms by (auto simp: locate_def)

lemma locate_cases:
  assumes "locate env inc (key, c) s = (found, inc', s')"
  shows "s' = s
       \<or> (\<exists>d. comp_hfile c \<noteq> Some (basename (hfile inc))
              \<and> map_of (internal_components s) (Some (basename (hfile inc))) = Some d
              \<and> s' = add_internal key d s)
       \<or> (\<exists>e m. s' = add_external key e (s\<lparr>external_components := m\<rparr>))"
proof (cases "comp_hfile c = Some (basename (hfile inc))")
  case True
  with assms show ?thesis by (simp add: locate_self)
next
  case own: False
  show ?thesis
  proof (cases "map_of (internal_components s) (Some (basename (hfile inc)))")
    case (Some d)
    with assms own show ?thesis by (simp add: locate_internal)
  next
    case internal: None
    show ?thesis
    proof (cases "map_of (external_components s) (basename (hfile inc))")
      case (Some e)
      have "s\<lparr>external_components := external_components s\<rparr> = s" by simp
      with assms own internal Some have "s' = add_external key e (s\<lparr>external_components := external_components s\<rparr>)"
        by (simp add: locate_cached)
      then show ?thesis by blast
    next
      case cached: None
      show ?thesis
      proof (cases "find_external_component env (basename (hfile inc)) (external_groups s)")
        case None
        with assms own internal cached show ?thesis by (simp add: locate_unresolved)
      next
        case (Some pe)
        obtain p e where "pe = (p, e)" by (cases pe)
        with assms own internal cached Some show ?thesis
          by (auto simp: locate_found)
      qed
    qed
  qed
qed





section \<open>The name of a component\<close>

lemma commonprefix_set:
  assumes "ps \<noteq> []"
  shows "common_path (PathSet ps) = Inl TypeError"
  using assms by (simp add: common_path_def commonprefix_def elements_def)

lemma Package_init_raises:
  "\<exists>e. Package_init env pths grp nm = Inl e"
proof (cases "Package_paths env grp nm pths ([], None)")
  case (Inl e)
  then show ?thesis by (simp add: Package_init_def)
next
  case (Inr r)
  obtain ps lp where r: "r = (ps, lp)" by (cases r)
  show ?thesis
  proof (cases "ps = []")
    case True
    with Inr r show ?thesis by (simp add: Package_init_def)
  next
    case False
    with Inr r commonprefix_set[OF False] show ?thesis
      by (auto simp: Package_init_def split: sum.splits option.splits)
  qed
qed

lemma Component_init_name:
  assumes "Component_init env hp cp pkg = Inr (c, ws)"
  shows "\<exists>f. (if truthy hp then hp else cp) = Some f
             \<and> name c = strip_ext (drop (length (root pkg) + 1) f)
             \<and> hpath c = hp \<and> cpath c = cp \<and> package c = pkg"
proof (cases "if truthy hp then hp else cp")
  case None
  with assms show ?thesis
    by (simp add: Component_init_def split: if_splits)
next
  case (Some f)
  with assms show ?thesis
    by (auto simp: Component_init_def Let_def split: if_splits sum.splits)
qed

text \<open>
  Claim C3, as amended. The name of a constructed component is the path of its header
  file (of its implementation file when it has no header) with the first
  \<open>len(package.root) + 1\<close> characters removed and the extension stripped: when the path
  is the root of the component's package, a separator and a rest, the name is the rest
  without its extension. The name is relative to the attribute \<open>root\<close> of the package,
  not to the directory of the package group.
\<close>

theorem component_name:
  assumes "Component_init env hp cp pkg = Inr (c, ws)"
  shows "(\<exists>f. (if truthy hp then hp else cp) = Some f
               \<and> name c = strip_ext (drop (length (root pkg) + 1) f))
       \<and> (\<forall>rel. (if truthy hp then hp else cp) = Some (root pkg @ [sep] @ rel)
               \<longrightarrow> name c = strip_ext rel)
       \<and> package c = pkg"
proof -
  from Component_init_name[OF assms] obtain f
    where f: "(if truthy hp then hp else cp) = Some f"
      and n: "name c = strip_ext (drop (length (root pkg) + 1) f)"
      and p: "package c = pkg"
    by blast
  have "name c = strip_ext rel" if "(if truthy hp then hp else cp) = Some (root pkg @ [sep] @ rel)" for rel
  proof -
    from that f have "f = root pkg @ [sep] @ rel" by simp
    with n show ?thesis by simp
  qed
  with f n p show ?thesis
    by blast
qed

theorem component_name_witness:
  "Component_init example_env (Some ''/proj/lib/a.h'') (Some ''/proj/lib/a.c'') example_package
     = Inr (example_component ''a'', [])
   \<and> root example_package = ''/proj/lib''
   \<and> name (example_component ''a'') = strip_ext ''a.h''
   \<and> package (example_component ''a'') = example_package"
proof -
  have c: "Component_init example_env (Some ''/proj/lib/a.h'') (Some ''/proj/lib/a.c'') example_package
     = Inr (example_component ''a'', [])"
    by code_simp
  have r: "(if truthy (Some ''/proj/lib/a.h'') then Some ''/proj/lib/a.h'' else Some ''/proj/lib/a.c'')
             = Some (root example_package @ [sep] @ ''a.h'')"
    by code_simp
  have p: "root example_package = ''/proj/lib''"
    by code_simp
  note t = component_name[OF c]
  have n: "name (example_component ''a'') = strip_ext ''a.h''"
    by (rule t[THEN conjunct2, THEN conjunct1, THEN spec, THEN mp, OF r])
  show ?thesis
    by (rule conjI[OF c conjI[OF p conjI[OF n t[THEN conjunct2, THEN conjunct2]]]])
qed

text \<open>
  Claim C3, as stated, fails. Take the group \<open>core\<close> with the directory \<open>/proj\<close> and in
  it a package with the one path \<open>/proj/lib\<close>, whose common directory, and root, is
  \<open>/proj/lib\<close>. The component constructed in this package from the header
  \<open>/proj/lib/a.h\<close> has the name \<open>a\<close>; relative to the directory of the group the path
  without its extension is \<open>lib/a\<close>.
\<close>

theorem component_name_counterexample:
  "grp_path example_group = ''/proj''
   \<and> pkg_group example_package = grp_name example_group
   \<and> common_path (PathList (paths example_package)) = Inr (root example_package)
   \<and> Component_init example_env (Some ''/proj/lib/a.h'') (Some ''/proj/lib/a.c'') example_package
       = Inr (example_component ''a'', [])
   \<and> strip_ext (drop (length (grp_path example_group) + 1) ''/proj/lib/a.h'') = ''lib/a''
   \<and> name (example_component ''a'') = ''a''
   \<and> name (example_component ''a'')
       \<noteq> strip_ext (drop (length (grp_path example_group) + 1) ''/proj/lib/a.h'')"
  by code_simp

section \<open>Pairing files\<close>

lemma hfiles_first:
  "map_of (snd (fold find_hfiles_step es d)) f
     = (case map_of (snd d) f of Some p \<Rightarrow> Some p | None \<Rightarrow> map_of es f)"
proof (induction es arbitrary: d)
  case Nil
  then show ?case by (simp split: option.splits)
next
  case (Cons e es)
  obtain hf hp hb hfs where e: "e = (hf, hp)" and d: "d = (hb, hfs)"
    by (cases e, cases d) auto
  show ?case
    unfolding e d fold_simps Cons.IH
    by (auto simp: find_hfiles_step_def update_conv' split: option.splits)
qed

lemma hbases_last:
  "map_of (fst (fold find_hfiles_step es d)) b
     = (case map_of (rev (by_base es)) b of Some p \<Rightarrow> Some p | None \<Rightarrow> map_of (fst d) b)"
proof (induction es arbitrary: d)
  case Nil
  then show ?case by (simp add: by_base_def)
next
  case (Cons e es)
  obtain hf hp hb hfs where e: "e = (hf, hp)" and d: "d = (hb, hfs)"
    by (cases e, cases d) auto
  show ?case
    unfolding e d fold_simps Cons.IH
    by (auto simp: find_hfiles_step_def update_conv' by_base_def map_add_def split: option.splits)
qed

lemma collect_files_headers:
  assumes "collect_files env ps d = Inr d'"
  shows "fst d' = fold find_hfiles_step (concat (map (\<lambda>p. find_files env p RE_HFILE) ps)) (fst d)"
  using assms
proof (induction ps arbitrary: d)
  case Nil
  then show ?case by simp
next
  case (Cons p ps)
  from Cons.prems obtain cb where cb: "find_cfiles env p (snd d) = Inr cb"
    and r: "collect_files env ps (find_hfiles env p (fst d), cb) = Inr d'"
    by (auto simp: Let_def split: sum.splits)
  from Cons.IH[OF r] show ?case
    by (simp add: find_hfiles_def)
qed

lemma Component_init_fields:
  assumes "Component_init env hp cp pkg = Inr (c, ws)"
  shows "hpath c = hp \<and> cpath c = cp \<and> package c = pkg
       \<and> comp_hfile c = (if \<not> truthy hp then None else map_option basename hp)
       \<and> dep_internal_components c = {} \<and> dep_external_components c = {}"
  using assms
  by (cases "if truthy hp then hp else cp")
     (auto simp: Component_init_def Let_def split: if_splits sum.splits)

lemma grep_opt_error:
  assumes "grep_opt env p = Inl e"
  shows "\<exists>m f. e = IOError m \<and> read_lines env f = Inl m"
  using assms
  by (cases p) (auto simp: grep_opt_def Include_grep_def split: if_splits sum.splits)

lemma Component_init_error:
  assumes "Component_init env hp cp pkg = Inl e"
  shows "e = AssertionError [] \<or> (\<exists>m f. e = IOError m \<and> read_lines env f = Inl m)"
proof (cases "truthy hp \<or> truthy cp")
  case False
  with assms show ?thesis by (simp add: Component_init_def)
next
  case True
  then have "(if truthy hp then hp else cp) \<noteq> None"
    by (cases hp; cases cp) (auto simp: truthy_def)
  then obtain f where f: "(if truthy hp then hp else cp) = Some f"
    by blast
  from assms True f have "grep_opt env hp = Inl e \<or> grep_opt env cp = Inl e"
    by (auto simp: Component_init_def Let_def split: sum.splits)
  then show ?thesis
    using grep_opt_error by blast
qed

lemma register_components:
  "map_of (components (register key c ws s)) = (map_of (components s))(key \<mapsto> c)"
  "map_of (components (register_unpaired key c ws s)) = (map_of (components s))(key \<mapsto> c)"
  by (simp_all add: register_def register_unpaired_def warn_def update_conv')

lemma construct_paired_ConsE:
  assumes "construct_paired env pkg ((key, hp) # hbases) (cb, s) = Inr r"
  obtains c ws where "map_of (components s) key = None"
    and "Component_init env (Some hp) (map_of cb key) pkg = Inr (c, ws)"
    and "construct_paired env pkg hbases
           (if map_of cb key \<noteq> None then AList.delete key cb else cb, register key c ws s) = Inr r"
proof (cases "Component_init env (Some hp) (map_of cb key) pkg")
  case (Inl e)
  with assms show ?thesis by (simp add: Let_def split: if_splits)
next
  case (Inr cw)
  obtain c ws where cw: "cw = (c, ws)" by (cases cw)
  from assms Inr cw have "map_of (components s) key = None"
    by (simp add: Let_def split: if_splits)
  moreover from assms Inr cw this have "construct_paired env pkg hbases
           (if map_of cb key \<noteq> None then AList.delete key cb else cb, register key c ws s) = Inr r"
    by (cases "map_of cb key") (simp_all add: Let_def register_def)
  ultimately show ?thesis using Inr cw that by blast
qed

lemma construct_unpaired_ConsE:
  assumes "construct_unpaired env pkg ((key, cp) # cbases) s = Inr r"
  obtains c ws where "map_of (components s) key = None"
    and "Component_init env None (Some cp) pkg = Inr (c, ws)"
    and "construct_unpaired env pkg cbases (register_unpaired key c ws s) = Inr r"
proof (cases "Component_init env None (Some cp) pkg")
  case (Inl e)
  with assms show ?thesis by (simp split: if_splits)
next
  case (Inr cw)
  obtain c ws where cw: "cw = (c, ws)" by (cases cw)
  from assms Inr cw have "map_of (components s) key = None"
    by (simp split: if_splits)
  moreover from assms Inr cw this have "construct_unpaired env pkg cbases (register_unpaired key c ws s) = Inr r"
    by (simp add: register_unpaired_def)
  ultimately show ?thesis using Inr cw that by blast
qed

lemma construct_paired_success:
  assumes "construct_paired env pkg hbases (cb, s) = Inr (cb', s')"
  shows "(\<forall>k c. map_of (components s) k = Some c \<longrightarrow> map_of (components s') k = Some c)
       \<and> (\<forall>k p. (k, p) \<in> set hbases
            \<longrightarrow> map_of (components s) k = None
                \<and> (\<exists>c. map_of (components s') k = Some c \<and> hpath c = Some p))
       \<and> (\<forall>k. map_of cb' k = (if k \<in> fst ` set hbases then None else map_of cb k))"
  using assms
proof (induction hbases arbitrary: cb s)
  case Nil
  then show ?case by simp
next
  case (Cons kv hbases)
  obtain key hp where kv: "kv = (key, hp)" by (cases kv)
  from Cons.prems[unfolded kv] obtain c ws where fresh: "map_of (components s) key = None"
    and ci: "Component_init env (Some hp) (map_of cb key) pkg = Inr (c, ws)"
    and rest: "construct_paired env pkg hbases
           (if map_of cb key \<noteq> None then AList.delete key cb else cb, register key c ws s) = Inr (cb', s')"
    by (rule construct_paired_ConsE)
  note ih = Cons.IH[OF rest]
  note reg = register_components(1)[of key c ws s]
  from Component_init_fields[OF ci] have hc: "hpath c = Some hp" by simp
  have a: "map_of (components s') k = Some c'" if "map_of (components s) k = Some c'" for k c'
  proof -
    from that fresh have "k \<noteq> key" by auto
    with that reg have "map_of (components (register key c ws s)) k = Some c'" by simp
    with ih show ?thesis by blast
  qed
  have b: "map_of (components s) k = None \<and> (\<exists>c. map_of (components s') k = Some c \<and> hpath c = Some p)"
    if "(k, p) \<in> set ((key, hp) # hbases)" for k p
  proof (cases "(k, p) \<in> set hbases")
    case True
    with ih have n: "map_of (components (register key c ws s)) k = None"
      and e: "\<exists>c. map_of (components s') k = Some c \<and> hpath c = Some p"
      by blast+
    from n reg have "map_of (components s) k = None"
      by (cases "k = key") auto
    with e show ?thesis by simp
  next
    case False
    with that have k: "k = key" "p = hp" by auto
    from reg have "map_of (components (register key c ws s)) key = Some c" by simp
    with ih have "map_of (components s') key = Some c" by blast
    with fresh hc k show ?thesis by simp
  qed
  have c: "map_of cb' k = (if k \<in> fst ` set ((key, hp) # hbases) then None else map_of cb k)" for k
  proof -
    from ih have "map_of cb' k = (if k \<in> fst ` set hbases then None
            else map_of (if map_of cb key \<noteq> None then AList.delete key cb else cb) k)"
      by blast
    then show ?thesis
      by (auto simp: delete_conv')
  qed
  from a b c show ?case unfolding kv by blast
qed

lemma construct_unpaired_success:
  assumes "construct_unpaired env pkg cbases s = Inr s'"
  shows "(\<forall>k c. map_of (components s) k = Some c \<longrightarrow> map_of (components s') k = Some c)
       \<and> (\<forall>k p. (k, p) \<in> set cbases
            \<longrightarrow> map_of (components s) k = None
                \<and> (\<exists>c. map_of (components s') k = Some c \<and> cpath c = Some p \<and> hpath c = None))"
  using assms
proof (induction cbases arbitrary: s)
  case Nil
  then show ?case by simp
next
  case (Cons kv cbases)
  obtain key cp where kv: "kv = (key, cp)" by (cases kv)
  from Cons.prems[unfolded kv] obtain c ws where fresh: "map_of (components s) key = None"
    and ci: "Component_init env None (Some cp) pkg = Inr (c, ws)"
    and rest: "construct_unpaired env pkg cbases (register_unpaired key c ws s) = Inr s'"
    by (rule construct_unpaired_ConsE)
  note ih = Cons.IH[OF rest]
  note reg = register_components(2)[of key c ws s]
  from Component_init_fields[OF ci] have hc: "cpath c = Some cp \<and> hpath c = None" by simp
  have a: "map_of (components s') k = Some c'" if "map_of (components s) k = Some c'" for k c'
  proof -
    from that fresh have "k \<noteq> key" by auto
    with that reg have "map_of (components (register_unpaired key c ws s)) k = Some c'" by simp
    with ih show ?thesis by blast
  qed
  have b: "map_of (components s) k = None
             \<and> (\<exists>c. map_of (components s') k = Some c \<and> cpath c = Some p \<and> hpath c = None)"
    if "(k, p) \<in> set ((key, cp) # cbases)" for k p
  proof (cases "(k, p) \<in> set cbases")
    case True
    with ih have n: "map_of (components (register_unpaired key c ws s)) k = None"
      and e: "\<exists>c. map_of (components s') k = Some c \<and> cpath c = Some p \<and> hpath c = None"
      by blast+
    from n reg have "map_of (components s) k = None"
      by (cases "k = key") auto
    with e show ?thesis by simp
  next
    case False
    with that have k: "k = key" "p = cp" by auto
    from reg have "map_of (components (register_unpaired key c ws s)) key = Some c" by simp
    with ih have "map_of (components s') key = Some c" by blast
    with fresh hc k show ?thesis by simp
  qed
  from a b show ?case unfolding kv by blast
qed

lemma map_of_first:
  assumes "f \<notin> fst ` set es1"
  shows "map_of (es1 @ (f, p) # es2) f = Some p"
proof -
  from assms have "map_of es1 f = None"
    by (simp add: map_of_eq_None_iff)
  then show ?thesis
    by (simp add: map_add_def)
qed

lemma map_of_last:
  assumes "strip_ext f \<notin> (\<lambda>e. strip_ext (fst e)) ` set es2"
  shows "map_of (rev (by_base (es1 @ (f, p) # es2))) (strip_ext f) = Some p"
proof -
  have r: "rev (by_base (es1 @ (f, p) # es2)) = rev (by_base es2) @ (strip_ext f, p) # rev (by_base es1)"
    by (simp add: by_base_def)
  have "fst ` set (rev (by_base es2)) = (\<lambda>e. strip_ext (fst e)) ` set es2"
    by (simp add: by_base_def image_image)
  with assms have n: "strip_ext f \<notin> fst ` set (rev (by_base es2))"
    by simp
  show ?thesis
    unfolding r by (rule map_of_first[OF n])
qed

lemma make_package_Inr:
  assumes "make_package env pkg s = Inr s'"
  obtains hb hf cb cb' s2 where "collect_files env (paths pkg) (([], []), []) = Inr ((hb, hf), cb)"
    and "construct_paired env pkg hb (cb, s\<lparr>internal_hfiles := index_hfiles hf (internal_hfiles s)\<rparr>)
           = Inr (cb', s2)"
    and "construct_unpaired env pkg cb' s2 = Inr s'"
proof -
  from assms obtain hb hf cb where col: "collect_files env (paths pkg) (([], []), []) = Inr ((hb, hf), cb)"
    and con: "construct_components env pkg hb cb (s\<lparr>internal_hfiles := index_hfiles hf (internal_hfiles s)\<rparr>) = Inr s'"
    by (auto simp: make_package_def split: sum.splits)
  from con obtain cb' s2 where
    "construct_paired env pkg hb (cb, s\<lparr>internal_hfiles := index_hfiles hf (internal_hfiles s)\<rparr>) = Inr (cb', s2)"
    "construct_unpaired env pkg cb' s2 = Inr s'"
    by (auto simp: construct_components_def split: sum.splits)
  with col that show ?thesis by blast
qed

lemma collected_headers:
  assumes "collect_files env (paths pkg) (([], []), []) = Inr ((hb, hf), cb)"
  shows "map_of hf f = map_of (header_entries env pkg) f"
    and "map_of hb b = map_of (rev (by_base (header_entries env pkg))) b"
proof -
  from collect_files_headers[OF assms]
  have h: "(hb, hf) = fold find_hfiles_step (header_entries env pkg) ([], [])"
    by (simp add: header_entries_def)
  have "map_of hf f = map_of (snd (fold find_hfiles_step (header_entries env pkg) ([], []))) f"
    by (simp add: h[symmetric])
  then show "map_of hf f = map_of (header_entries env pkg) f"
    by (simp add: hfiles_first)
  have "map_of hb b = map_of (fst (fold find_hfiles_step (header_entries env pkg) ([], []))) b"
    by (simp add: h[symmetric])
  then show "map_of hb b = map_of (rev (by_base (header_entries env pkg))) b"
    by (simp add: hbases_last split: option.splits)
qed

text \<open>
  Claim C2, as amended. When a package is paired, the header index \<open>hfiles\<close> of the
  package keeps, for each header file name, the path met first, and later headers of
  the same name are discarded there. The component built for a name without extension
  holds the path of the header met last among those with that name without extension.
\<close>

theorem header_duplicates:
  assumes "make_package env pkg s = Inr s'"
  shows "(\<exists>hbases hfiles cbases.
            collect_files env (paths pkg) (([], []), []) = Inr ((hbases, hfiles), cbases)
          \<and> (\<forall>es1 f p es2. header_entries env pkg = es1 @ (f, p) # es2 \<and> f \<notin> fst ` set es1
                \<longrightarrow> map_of hfiles f = Some p))
       \<and> (\<forall>es1 f p es2. header_entries env pkg = es1 @ (f, p) # es2
                          \<and> strip_ext f \<notin> (\<lambda>e. strip_ext (fst e)) ` set es2
             \<longrightarrow> (\<exists>c. map_of (components s') (strip_ext f) = Some c \<and> hpath c = Some p))"
proof -
  from assms obtain hb hf cb cb' s2
    where col: "collect_files env (paths pkg) (([], []), []) = Inr ((hb, hf), cb)"
      and paired: "construct_paired env pkg hb (cb, s\<lparr>internal_hfiles := index_hfiles hf (internal_hfiles s)\<rparr>)
                     = Inr (cb', s2)"
      and unpaired: "construct_unpaired env pkg cb' s2 = Inr s'"
    by (rule make_package_Inr)
  have first: "map_of hf f = Some p"
    if "header_entries env pkg = es1 @ (f, p) # es2 \<and> f \<notin> fst ` set es1" for es1 f p es2
  proof -
    from that have e: "header_entries env pkg = es1 @ (f, p) # es2" and n: "f \<notin> fst ` set es1"
      by blast+
    have "map_of hf f = map_of (header_entries env pkg) f"
      by (rule collected_headers(1)[OF col])
    also have "\<dots> = map_of (es1 @ (f, p) # es2) f"
      by (simp only: e)
    also have "\<dots> = Some p"
      by (rule map_of_first[OF n])
    finally show ?thesis .
  qed
  have last: "\<exists>c. map_of (components s') (strip_ext f) = Some c \<and> hpath c = Some p"
    if "header_entries env pkg = es1 @ (f, p) # es2
          \<and> strip_ext f \<notin> (\<lambda>e. strip_ext (fst e)) ` set es2" for es1 f p es2
  proof -
    from that have e: "header_entries env pkg = es1 @ (f, p) # es2"
      and n: "strip_ext f \<notin> (\<lambda>e. strip_ext (fst e)) ` set es2"
      by blast+
    have "map_of hb (strip_ext f) = map_of (rev (by_base (header_entries env pkg))) (strip_ext f)"
      by (rule collected_headers(2)[OF col])
    also have "\<dots> = map_of (rev (by_base (es1 @ (f, p) # es2))) (strip_ext f)"
      by (simp only: e)
    also have "\<dots> = Some p"
      by (rule map_of_last[OF n])
    finally have "map_of hb (strip_ext f) = Some p" .
    then have "(strip_ext f, p) \<in> set hb"
      by (rule map_of_SomeD)
    with construct_paired_success[OF paired]
    obtain c where "map_of (components s2) (strip_ext f) = Some c" "hpath c = Some p"
      by blast
    with construct_unpaired_success[OF unpaired] show ?thesis
      by blast
  qed
  from col first last show ?thesis
    by blast
qed

theorem header_duplicates_witness:
  "make_package dup_env example_package empty_analysis = Inr dup_result
   \<and> (\<exists>hbases hfiles cbases.
         collect_files dup_env (paths example_package) (([], []), []) = Inr ((hbases, hfiles), cbases)
         \<and> map_of hfiles ''a.h'' = Some ''/proj/lib/x/a.h'')
   \<and> (\<exists>c. map_of (components dup_result) (strip_ext ''a.h'') = Some c
          \<and> hpath c = Some ''/proj/lib/y/a.h'')"
proof -
  have m: "make_package dup_env example_package empty_analysis = Inr dup_result"
    by code_simp
  have h1: "header_entries dup_env example_package
              = [] @ (''a.h'', ''/proj/lib/x/a.h'') # [(''a.h'', ''/proj/lib/y/a.h'')]
            \<and> ''a.h'' \<notin> fst ` set ([] :: (string \<times> string) list)"
    by code_simp
  have h2: "header_entries dup_env example_package
              = [(''a.h'', ''/proj/lib/x/a.h'')] @ (''a.h'', ''/proj/lib/y/a.h'') # []
            \<and> strip_ext ''a.h'' \<notin> (\<lambda>e. strip_ext (fst e)) ` set ([] :: (string \<times> string) list)"
    by code_simp
  note t = header_duplicates[OF m]
  from t[THEN conjunct1] obtain hb hf cb
    where col: "collect_files dup_env (paths example_package) (([], []), []) = Inr ((hb, hf), cb)"
      and first: "\<forall>es1 f p es2. header_entries dup_env example_package = es1 @ (f, p) # es2
                     \<and> f \<notin> fst ` set es1 \<longrightarrow> map_of hf f = Some p"
    by (elim exE conjE)
  have f: "map_of hf ''a.h'' = Some ''/proj/lib/x/a.h''"
    by (rule first[THEN spec, THEN spec, THEN spec, THEN spec, THEN mp, OF h1])
  have w1: "\<exists>hbases hfiles cbases.
         collect_files dup_env (paths example_package) (([], []), []) = Inr ((hbases, hfiles), cbases)
         \<and> map_of hfiles ''a.h'' = Some ''/proj/lib/x/a.h''"
    by (intro exI conjI) (rule col, rule f)
  have w2: "\<exists>c. map_of (components dup_result) (strip_ext ''a.h'') = Some c
          \<and> hpath c = Some ''/proj/lib/y/a.h''"
    by (rule t[THEN conjunct2, THEN spec, THEN spec, THEN spec, THEN spec, THEN mp, OF h2])
  show ?thesis
    by (rule conjI[OF m conjI[OF w1 w2]])
qed

text \<open>
  Claim C2, as stated, fails: with two headers \<open>a.h\<close> in one package, met in the
  directory \<open>x\<close> first and in \<open>y\<close> second, the component \<open>a\<close> holds the path in \<open>y\<close>.
\<close>

theorem header_duplicates_counterexample:
  "header_entries dup_env example_package
     = [(''a.h'', ''/proj/lib/x/a.h''), (''a.h'', ''/proj/lib/y/a.h'')]
   \<and> make_package dup_env example_package empty_analysis = Inr dup_result
   \<and> map_option hpath (map_of (components dup_result) ''a'') = Some (Some ''/proj/lib/y/a.h'')
   \<and> map_option hpath (map_of (components dup_result) ''a'') \<noteq> Some (Some ''/proj/lib/x/a.h'')"
  by code_simp

section \<open>Failures of pairing\<close>

lemma fold_err_append:
  "fold_err f (xs @ ys) s = (case fold_err f xs s of Inl e \<Rightarrow> Inl e | Inr s1 \<Rightarrow> fold_err f ys s1)"
  by (induction xs arbitrary: s) (auto split: sum.splits)

lemma fold_err_error:
  assumes "fold_err f xs s = Inl e" and "\<And>x s e. f x s = Inl e \<Longrightarrow> P e"
  shows "P e"
  using assms by (induction xs arbitrary: s) (auto split: sum.splits)

lemma fold_err_invariant:
  assumes "fold_err f xs s = Inr s'" and "I s" and "\<And>x s s'. I s \<Longrightarrow> f x s = Inr s' \<Longrightarrow> I s'"
  shows "I s'"
  using assms by (induction xs arbitrary: s) (auto split: sum.splits)

lemma find_cfiles_loop_Inl:
  "find_cfiles_loop es cb = Inl e \<Longrightarrow> e = AssertionError []"
  by (induction es cb rule: find_cfiles_loop.induct) (auto simp: Let_def split: if_splits)

lemma find_cfiles_loop_Inr:
  "find_cfiles_loop es cb = Inr cb' \<Longrightarrow>
     distinct (map (\<lambda>e. strip_ext (fst e)) es)
     \<and> (\<forall>e \<in> set es. map_of cb (strip_ext (fst e)) = None)
     \<and> dom (map_of cb') = dom (map_of cb) \<union> (\<lambda>e. strip_ext (fst e)) ` set es"
proof (induction es cb rule: find_cfiles_loop.induct)
  case (1 cbases)
  then show ?case by simp
next
  case (2 cfile cpath es cbases)
  from "2.prems" have fresh: "map_of cbases (strip_ext cfile) = None"
    and rest: "find_cfiles_loop es (AList.update (strip_ext cfile) cpath cbases) = Inr cb'"
    by (auto simp: Let_def split: if_splits)
  from "2.IH"[OF refl _ rest] fresh
  have ih: "distinct (map (\<lambda>e. strip_ext (fst e)) es)"
    "\<forall>e \<in> set es. map_of (AList.update (strip_ext cfile) cpath cbases) (strip_ext (fst e)) = None"
    "dom (map_of cb') = dom (map_of (AList.update (strip_ext cfile) cpath cbases))
                          \<union> (\<lambda>e. strip_ext (fst e)) ` set es"
    by auto
  from ih(2) have ne: "\<forall>e \<in> set es. strip_ext (fst e) \<noteq> strip_ext cfile
                         \<and> map_of cbases (strip_ext (fst e)) = None"
    by (auto simp: update_conv' split: if_splits)
  from ih(1) ne fresh have "distinct (map (\<lambda>e. strip_ext (fst e)) ((cfile, cpath) # es))"
    by auto
  moreover from ne fresh have "\<forall>e \<in> set ((cfile, cpath) # es). map_of cbases (strip_ext (fst e)) = None"
    by auto
  moreover from ih(3) have "dom (map_of cb')
       = dom (map_of cbases) \<union> (\<lambda>e. strip_ext (fst e)) ` set ((cfile, cpath) # es)"
    by (auto simp: update_conv')
  ultimately show ?case by blast
qed

lemma collect_files_Inl:
  "collect_files env ps d = Inl e \<Longrightarrow> e = AssertionError []"
  by (induction ps arbitrary: d)
     (auto simp: Let_def find_cfiles_def split: sum.splits dest: find_cfiles_loop_Inl)

lemma disjoint_keys:
  assumes "distinct (map g xs)" and "distinct (map g ys)" and "\<forall>y \<in> set ys. g y \<notin> g ` set xs"
  shows "distinct (map g (xs @ ys))"
proof -
  have "set (map g xs) \<inter> set (map g ys) = {}"
  proof (rule ccontr)
    assume "set (map g xs) \<inter> set (map g ys) \<noteq> {}"
    then obtain k where k: "k \<in> g ` set xs" and "k \<in> g ` set ys"
      by auto
    then obtain y where "y \<in> set ys" and "k = g y"
      by blast
    with assms(3) have "k \<notin> g ` set xs"
      by simp
    with k show False by contradiction
  qed
  with assms(1,2) show ?thesis
    by (simp only: map_append distinct_append)
qed

lemma collect_files_Inr:
  "collect_files env ps d = Inr d' \<Longrightarrow>
     distinct (map (\<lambda>e. strip_ext (fst e)) (concat (map (\<lambda>p. find_files env p RE_CFILE) ps)))
     \<and> dom (map_of (snd d'))
         = dom (map_of (snd d))
             \<union> (\<lambda>e. strip_ext (fst e)) ` set (concat (map (\<lambda>p. find_files env p RE_CFILE) ps))
     \<and> (\<forall>e \<in> set (concat (map (\<lambda>p. find_files env p RE_CFILE) ps)).
           map_of (snd d) (strip_ext (fst e)) = None)"
proof (induction ps arbitrary: d)
  case Nil
  then show ?case by simp
next
  case (Cons p ps)
  define g :: "string \<times> string \<Rightarrow> string" where "g = (\<lambda>e. strip_ext (fst e))"
  define here where "here = find_files env p RE_CFILE"
  define rest where "rest = concat (map (\<lambda>p. find_files env p RE_CFILE) ps)"
  from Cons.prems obtain cb where cb: "find_cfiles_loop here (snd d) = Inr cb"
    and r: "collect_files env ps (find_hfiles env p (fst d), cb) = Inr d'"
    by (auto simp: Let_def find_cfiles_def here_def split: sum.splits)
  from find_cfiles_loop_Inr[OF cb]
  have a: "distinct (map g here)" "\<forall>e \<in> set here. map_of (snd d) (g e) = None"
    "dom (map_of cb) = dom (map_of (snd d)) \<union> g ` set here"
    unfolding g_def by blast+
  from Cons.IH[OF r]
  have b: "distinct (map g rest)" "dom (map_of (snd d')) = dom (map_of cb) \<union> g ` set rest"
    "\<forall>e \<in> set rest. map_of cb (g e) = None"
    unfolding g_def rest_def by simp_all
  have disj: "\<forall>e \<in> set rest. g e \<notin> g ` set here \<and> map_of (snd d) (g e) = None"
  proof
    fix e
    assume "e \<in> set rest"
    with b(3) have "map_of cb (g e) = None" by blast
    then have "g e \<notin> dom (map_of cb)" by (simp add: domIff)
    with a(3) have "g e \<notin> dom (map_of (snd d))" "g e \<notin> g ` set here" by blast+
    then show "g e \<notin> g ` set here \<and> map_of (snd d) (g e) = None" by (simp add: domIff)
  qed
  then have "\<forall>y \<in> set rest. g y \<notin> g ` set here" by blast
  with a(1) b(1) have c1: "distinct (map g (here @ rest))"
    by (rule disjoint_keys)
  from a(3) b(2) have c2: "dom (map_of (snd d')) = dom (map_of (snd d)) \<union> g ` set (here @ rest)"
    by (simp add: image_Un Un_assoc)
  from a(2) disj have c3: "\<forall>e \<in> set (here @ rest). map_of (snd d) (g e) = None"
    by (simp add: ball_Un)
  have e: "concat (map (\<lambda>p. find_files env p RE_CFILE) (p # ps)) = here @ rest"
    by (simp add: here_def rest_def)
  from c1 c2 c3 show ?case
    unfolding e g_def by (intro conjI)
qed

lemma construct_paired_error:
  "construct_paired env pkg hb acc = Inl e \<Longrightarrow> pairing_error env e"
proof (induction hb arbitrary: acc)
  case Nil
  then show ?case by simp
next
  case (Cons kv hb)
  show ?case
  proof (cases "map_of (components (snd acc)) (fst kv) \<noteq> None")
    case True
    with Cons.prems have "e = AssertionError []"
      by (simp add: Let_def)
    then show ?thesis by (simp add: pairing_error_def)
  next
    case False
    show ?thesis
    proof (cases "Component_init env (Some (snd kv)) (map_of (fst acc) (fst kv)) pkg")
      case (Inl e')
      with Cons.prems False have "e = e'"
        by (simp add: Let_def)
      with Component_init_error[OF Inl] show ?thesis
        by (simp add: pairing_error_def)
    next
      case (Inr cw)
      with Cons.prems False have "\<exists>acc'. construct_paired env pkg hb acc' = Inl e"
        by (cases cw) (auto simp: Let_def)
      with Cons.IH show ?thesis by blast
    qed
  qed
qed

lemma construct_unpaired_error:
  "construct_unpaired env pkg cb s = Inl e \<Longrightarrow> pairing_error env e"
proof (induction cb arbitrary: s)
  case Nil
  then show ?case by simp
next
  case (Cons kv cb)
  show ?case
  proof (cases "map_of (components s) (fst kv) \<noteq> None")
    case True
    with Cons.prems have "e = AssertionError []"
      by simp
    then show ?thesis by (simp add: pairing_error_def)
  next
    case False
    show ?thesis
    proof (cases "Component_init env None (Some (snd kv)) pkg")
      case (Inl e')
      with Cons.prems False have "e = e'"
        by simp
      with Component_init_error[OF Inl] show ?thesis
        by (simp add: pairing_error_def)
    next
      case (Inr cw)
      with Cons.prems False have "\<exists>s'. construct_unpaired env pkg cb s' = Inl e"
        by (cases cw) auto
      with Cons.IH show ?thesis by blast
    qed
  qed
qed

lemma make_package_error:
  assumes "make_package env pkg s = Inl e"
  shows "pairing_error env e"
proof (cases "collect_files env (paths pkg) (([], []), [])")
  case (Inl e')
  with assms have "e = e'" by (simp add: make_package_def)
  with collect_files_Inl[OF Inl] show ?thesis by (simp add: pairing_error_def)
next
  case (Inr d)
  obtain hb hf cb where d: "d = ((hb, hf), cb)" by (cases d) auto
  let ?s = "s\<lparr>internal_hfiles := index_hfiles hf (internal_hfiles s)\<rparr>"
  from assms Inr d have c: "construct_components env pkg hb cb ?s = Inl e"
    by (simp add: make_package_def)
  show ?thesis
  proof (cases "construct_paired env pkg hb (cb, ?s)")
    case (Inl e')
    with c have "e = e'" by (simp add: construct_components_def)
    with construct_paired_error[OF Inl] show ?thesis by simp
  next
    case (Inr r)
    with c have "construct_unpaired env pkg (fst r) (snd r) = Inl e"
      by (cases r) (simp add: construct_components_def)
    then show ?thesis by (rule construct_unpaired_error)
  qed
qed

lemma make_components_error:
  assumes "make_components env s = Inl e"
  shows "pairing_error env e"
  using assms unfolding make_components_def
  by (rule fold_err_error) (rule make_package_error)

lemma collected_impls:
  assumes "collect_files env (paths pkg) (([], []), []) = Inr ((hb, hf), cb)"
  shows "dom (map_of cb) = (\<lambda>e. strip_ext (fst e)) ` set (impl_entries env pkg)"
  using collect_files_Inr[OF assms] by (simp add: impl_entries_def)

lemma collected_header_keys:
  assumes "collect_files env (paths pkg) (([], []), []) = Inr ((hb, hf), cb)"
  shows "dom (map_of hb) = (\<lambda>e. strip_ext (fst e)) ` set (header_entries env pkg)"
proof -
  have "dom (map_of hb) = dom (map_of (rev (by_base (header_entries env pkg))))"
    using collected_headers(2)[OF assms] by (auto simp: dom_def)
  also have "\<dots> = fst ` set (rev (by_base (header_entries env pkg)))"
    by (rule dom_map_of_conv_image_fst)
  also have "\<dots> = (\<lambda>e. strip_ext (fst e)) ` set (header_entries env pkg)"
    by (simp add: by_base_def image_image)
  finally show ?thesis .
qed

lemma make_package_keys:
  assumes "make_package env pkg s = Inr s'"
  shows "(\<forall>k c. map_of (components s) k = Some c \<longrightarrow> map_of (components s') k = Some c)
       \<and> (\<forall>b \<in> bases env pkg. map_of (components s) b = None \<and> map_of (components s') b \<noteq> None)"
proof -
  from assms obtain hb hf cb cb' s2
    where col: "collect_files env (paths pkg) (([], []), []) = Inr ((hb, hf), cb)"
      and paired: "construct_paired env pkg hb (cb, s\<lparr>internal_hfiles := index_hfiles hf (internal_hfiles s)\<rparr>)
                     = Inr (cb', s2)"
      and unpaired: "construct_unpaired env pkg cb' s2 = Inr s'"
    by (rule make_package_Inr)
  let ?s = "s\<lparr>internal_hfiles := index_hfiles hf (internal_hfiles s)\<rparr>"
  note p = construct_paired_success[OF paired]
  note u = construct_unpaired_success[OF unpaired]
  have s: "components ?s = components s" by simp
  have keep: "map_of (components s') k = Some c" if "map_of (components s) k = Some c" for k c
  proof -
    from that s have "map_of (components ?s) k = Some c" by simp
    with p have "map_of (components s2) k = Some c" by blast
    with u show ?thesis by blast
  qed
  have new: "map_of (components s) b = None \<and> map_of (components s') b \<noteq> None" if "b \<in> bases env pkg" for b
  proof (cases "b \<in> dom (map_of hb)")
    case True
    then obtain hp where "map_of hb b = Some hp" by blast
    then have "(b, hp) \<in> set hb" by (rule map_of_SomeD)
    with p obtain c where "map_of (components ?s) b = None" "map_of (components s2) b = Some c"
      by blast
    with u s show ?thesis by (metis option.distinct(1))
  next
    case False
    with that collected_header_keys[OF col] collected_impls[OF col]
    have "b \<in> dom (map_of cb)"
      by (auto simp: bases_def)
    moreover from False have "b \<notin> fst ` set hb"
      by (simp add: dom_map_of_conv_image_fst)
    ultimately have "map_of cb' b \<noteq> None"
      using p by auto
    then obtain cp where "map_of cb' b = Some cp" by blast
    then have "(b, cp) \<in> set cb'" by (rule map_of_SomeD)
    with u obtain c where n2: "map_of (components s2) b = None" and "map_of (components s') b = Some c"
      by blast
    moreover have "map_of (components s) b = None"
    proof (cases "map_of (components s) b")
      case None
      then show ?thesis .
    next
      case (Some c0)
      with s have "map_of (components ?s) b = Some c0" by simp
      with p have "map_of (components s2) b = Some c0" by blast
      with n2 show ?thesis by simp
    qed
    ultimately show ?thesis by simp
  qed
  from keep new show ?thesis by blast
qed

lemma make_packages_keep:
  assumes "fold_err (make_package env) ps s = Inr s'" and "map_of (components s) k \<noteq> None"
  shows "map_of (components s') k \<noteq> None"
  using assms(1,2)
proof (rule fold_err_invariant)
  fix x s1 s2
  assume "map_of (components s1) k \<noteq> None" and "make_package env x s1 = Inr s2"
  with make_package_keys[of env x s1 s2] show "map_of (components s2) k \<noteq> None"
    by auto
qed

lemma fold_err_fail:
  assumes "x \<in> set xs" and "\<And>s. \<exists>e. f x s = Inl e"
  shows "\<exists>e. fold_err f xs s = Inl e"
  using assms(1)
proof (induction xs arbitrary: s)
  case Nil
  then show ?case by simp
next
  case (Cons a xs)
  show ?case
  proof (cases "f a s")
    case (Inl e)
    then show ?thesis by simp
  next
    case (Inr s1)
    with Cons.prems assms(2)[of s] have "x \<in> set xs" by auto
    from Cons.IH[OF this, of s1] Inr show ?thesis by simp
  qed
qed

text \<open>
  Claim C7. When two implementation files of a package have the same name without
  extension, collecting the files of the package raises \<open>AssertionError\<close>, so pairing
  the package raises it, and \<open>make_components\<close> does not return for a configuration
  that has the package.
\<close>

theorem duplicate_impl_basename:
  assumes "impl_entries env pkg = es1 @ (f1, p1) # es2 @ (f2, p2) # es3"
    and "strip_ext f1 = strip_ext f2"
  shows "collect_files env (paths pkg) (([], []), []) = Inl (AssertionError [])
       \<and> make_package env pkg s = Inl (AssertionError [])
       \<and> (pkg \<in> set (all_packages (internal_groups s))
            \<longrightarrow> (\<exists>e. make_components env s = Inl e \<and> pairing_error env e))"
proof -
  from assms have nd: "\<not> distinct (map (\<lambda>e. strip_ext (fst e)) (impl_entries env pkg))"
    by simp
  have col: "collect_files env (paths pkg) (([], []), []) = Inl (AssertionError [])"
  proof (cases "collect_files env (paths pkg) (([], []), [])")
    case (Inl e)
    with collect_files_Inl[OF Inl] show ?thesis by simp
  next
    case (Inr d)
    from collect_files_Inr[OF Inr] nd show ?thesis
      by (simp add: impl_entries_def)
  qed
  then have pk: "make_package env pkg s' = Inl (AssertionError [])" for s'
    by (simp add: make_package_def)
  have "\<exists>e. make_components env s = Inl e \<and> pairing_error env e"
    if "pkg \<in> set (all_packages (internal_groups s))"
  proof -
    from pk have "\<exists>e. make_package env pkg s' = Inl e" for s' by simp
    with that have "\<exists>e. fold_err (make_package env) (all_packages (internal_groups s)) s = Inl e"
      by (rule fold_err_fail)
    then obtain e where e: "make_components env s = Inl e"
      by (auto simp: make_components_def)
    with make_components_error[OF e] show ?thesis by simp
  qed
  with col pk show ?thesis by blast
qed

theorem duplicate_impl_basename_witness:
  "collect_files clash_env (paths example_package) (([], []), []) = Inl (AssertionError [])
   \<and> make_package clash_env example_package two_packages = Inl (AssertionError [])
   \<and> (\<exists>e. make_components clash_env two_packages = Inl e \<and> pairing_error clash_env e)"
proof -
  have h1: "impl_entries clash_env example_package
              = [] @ (''a.c'', ''/proj/lib/a.c'') # [(''b.c'', ''/proj/lib/b.c'')]
                  @ (''a.cpp'', ''/proj/lib/a.cpp'') # []"
    by code_simp
  have h2: "strip_ext ''a.c'' = strip_ext ''a.cpp''"
    by code_simp
  have h3: "example_package \<in> set (all_packages (internal_groups two_packages))"
    by code_simp
  note t = duplicate_impl_basename[OF h1 h2, of two_packages]
  show ?thesis
    by (rule conjI[OF t[THEN conjunct1]
          conjI[OF t[THEN conjunct2, THEN conjunct1]
                   t[THEN conjunct2, THEN conjunct2, THEN mp, OF h3]]])
qed

lemma index_hfiles_first:
  "map_of (index_hfiles hfiles m) f = (case map_of m f of Some p \<Rightarrow> Some p | None \<Rightarrow> map_of hfiles f)"
  unfolding index_hfiles_def
proof (induction hfiles arbitrary: m)
  case Nil
  then show ?case by (simp split: option.splits)
next
  case (Cons e hfiles)
  obtain hf hp where e: "e = (hf, hp)" by (cases e)
  show ?case
    unfolding e fold_simps Cons.IH
    by (auto simp: update_conv' split: option.splits)
qed

text \<open>
  Claim C10. When two packages of the internal groups each hold a header or an
  implementation file with the same name without extension, \<open>make_components\<close> does not
  return: it raises an exception, which is \<open>AssertionError\<close> unless a file could not be
  read before; pairing the later package fails in any analysis whose \<open>components\<close>
  already has the name as a key. The only place where a second header with a known
  name is dropped without an error is the index \<open>internal_hfiles\<close>, in which a name that
  is present keeps its path.
\<close>

theorem cross_package_basename:
  assumes "all_packages (internal_groups s) = ps1 @ P # ps2 @ Q # ps3"
    and "b \<in> bases env P" and "b \<in> bases env Q"
  shows "(\<exists>e. make_components env s = Inl e \<and> pairing_error env e)
       \<and> ((\<forall>f m. read_lines env f \<noteq> Inl m) \<longrightarrow> make_components env s = Inl (AssertionError []))
       \<and> (\<forall>s1. map_of (components s1) b \<noteq> None \<longrightarrow> (\<exists>e. make_package env Q s1 = Inl e))
       \<and> (\<forall>hfiles m f p. map_of m f = Some p \<longrightarrow> map_of (index_hfiles hfiles m) f = Some p)"
proof -
  have later: "\<exists>e. make_package env Q s1 = Inl e" if "map_of (components s1) b \<noteq> None" for s1
  proof (cases "make_package env Q s1")
    case (Inl e)
    then show ?thesis by simp
  next
    case (Inr s2)
    from make_package_keys[OF Inr] assms(3) have "map_of (components s1) b = None" by blast
    with that show ?thesis by simp
  qed
  have fails: "\<exists>e. make_components env s = Inl e"
  proof (cases "make_components env s")
    case (Inl e)
    then show ?thesis by simp
  next
    case (Inr s')
    then have f: "fold_err (make_package env) (ps1 @ [P] @ ps2 @ [Q] @ ps3) s = Inr s'"
      by (simp add: make_components_def assms(1))
    then obtain s1 where s1: "fold_err (make_package env) ps1 s = Inr s1"
      and f1: "fold_err (make_package env) ([P] @ ps2 @ [Q] @ ps3) s1 = Inr s'"
      by (auto simp only: fold_err_append split: sum.splits)
    then obtain s2 where s2: "make_package env P s1 = Inr s2"
      and f2: "fold_err (make_package env) (ps2 @ [Q] @ ps3) s2 = Inr s'"
      by (auto split: sum.splits)
    then obtain s3 where s3: "fold_err (make_package env) ps2 s2 = Inr s3"
      and f3: "fold_err (make_package env) ([Q] @ ps3) s3 = Inr s'"
      by (auto simp only: fold_err_append split: sum.splits)
    then obtain s4 where s4: "make_package env Q s3 = Inr s4"
      by (auto split: sum.splits)
    from make_package_keys[OF s2] assms(2) have "map_of (components s2) b \<noteq> None" by blast
    with s3 have "map_of (components s3) b \<noteq> None" by (rule make_packages_keep)
    with later[of s3] s4 show ?thesis by simp
  qed
  then obtain e where e: "make_components env s = Inl e" ..
  note pe = make_components_error[OF e]
  have readable: "make_components env s = Inl (AssertionError [])" if "\<forall>f m. read_lines env f \<noteq> Inl m"
    using pe that e by (auto simp: pairing_error_def)
  have index: "map_of (index_hfiles hfiles m) f = Some p" if "map_of m f = Some p" for hfiles m f p
    using that by (simp add: index_hfiles_first)
  from e pe readable later index show ?thesis by blast
qed

theorem cross_package_basename_witness:
  "make_components cross_env two_packages = Inl (AssertionError [])
   \<and> (\<exists>e. make_components cross_env two_packages = Inl e \<and> pairing_error cross_env e)"
proof -
  have h1: "all_packages (internal_groups two_packages) = [] @ example_package # [] @ example_app # []"
    by code_simp
  have h2: "''a'' \<in> bases cross_env example_package"
    by code_simp
  have h3: "''a'' \<in> bases cross_env example_app"
    by code_simp
  have h4: "\<forall>f m. read_lines cross_env f \<noteq> Inl m"
    by (simp add: cross_env_def files_env_def)
  note t = cross_package_basename[OF h1 h2 h3]
  show ?thesis
    by (rule conjI[OF t[THEN conjunct2, THEN conjunct1, THEN mp, OF h4] t[THEN conjunct1]])
qed

section \<open>No self-edges\<close>

lemma construct_paired_invariant:
  assumes "construct_paired env pkg hb (cb, s) = Inr (cb', s')" and "I s"
    and "\<And>key c ws s hp cp. I s \<Longrightarrow> map_of (components s) key = None
           \<Longrightarrow> Component_init env (Some hp) cp pkg = Inr (c, ws) \<Longrightarrow> I (register key c ws s)"
  shows "I s'"
  using assms(1,2)
proof (induction hb arbitrary: cb s)
  case Nil
  then show ?case by simp
next
  case (Cons kv hb)
  obtain key hp where kv: "kv = (key, hp)" by (cases kv)
  from Cons.prems(1)[unfolded kv] obtain c ws where fresh: "map_of (components s) key = None"
    and ci: "Component_init env (Some hp) (map_of cb key) pkg = Inr (c, ws)"
    and rest: "construct_paired env pkg hb
           (if map_of cb key \<noteq> None then AList.delete key cb else cb, register key c ws s) = Inr (cb', s')"
    by (rule construct_paired_ConsE)
  from assms(3)[OF Cons.prems(2) fresh ci] have "I (register key c ws s)" .
  with rest show ?case by (rule Cons.IH)
qed

lemma construct_unpaired_invariant:
  assumes "construct_unpaired env pkg cb s = Inr s'" and "I s"
    and "\<And>key c ws s cp. I s \<Longrightarrow> map_of (components s) key = None
           \<Longrightarrow> Component_init env None (Some cp) pkg = Inr (c, ws) \<Longrightarrow> I (register_unpaired key c ws s)"
  shows "I s'"
  using assms(1,2)
proof (induction cb arbitrary: s)
  case Nil
  then show ?case by simp
next
  case (Cons kv cb)
  obtain key cp where kv: "kv = (key, cp)" by (cases kv)
  from Cons.prems(1)[unfolded kv] obtain c ws where fresh: "map_of (components s) key = None"
    and ci: "Component_init env None (Some cp) pkg = Inr (c, ws)"
    and rest: "construct_unpaired env pkg cb (register_unpaired key c ws s) = Inr s'"
    by (rule construct_unpaired_ConsE)
  from assms(3)[OF Cons.prems(2) fresh ci] have "I (register_unpaired key c ws s)" .
  with rest show ?case by (rule Cons.IH)
qed

lemma make_components_invariant:
  assumes "make_components env s = Inr s'" and "I s"
    and hf: "\<And>s m. I s \<Longrightarrow> I (s\<lparr>internal_hfiles := m\<rparr>)"
    and paired: "\<And>key c ws s hp cp pkg. I s \<Longrightarrow> map_of (components s) key = None
           \<Longrightarrow> Component_init env (Some hp) cp pkg = Inr (c, ws) \<Longrightarrow> I (register key c ws s)"
    and unpaired: "\<And>key c ws s cp pkg. I s \<Longrightarrow> map_of (components s) key = None
           \<Longrightarrow> Component_init env None (Some cp) pkg = Inr (c, ws) \<Longrightarrow> I (register_unpaired key c ws s)"
  shows "I s'"
  using assms(1)[unfolded make_components_def] assms(2)
proof (rule fold_err_invariant)
  fix pkg s1 s2
  assume i: "I s1" and m: "make_package env pkg s1 = Inr s2"
  from m obtain hb hf cb cb' s3
    where p: "construct_paired env pkg hb (cb, s1\<lparr>internal_hfiles := index_hfiles hf (internal_hfiles s1)\<rparr>)
                     = Inr (cb', s3)"
      and u: "construct_unpaired env pkg cb' s3 = Inr s2"
    by (rule make_package_Inr)
  from i have "I (s1\<lparr>internal_hfiles := index_hfiles hf (internal_hfiles s1)\<rparr>)"
    by (rule hf)
  with p have "I s3"
    by (rule construct_paired_invariant) (rule paired)
  with u show "I s2"
    by (rule construct_unpaired_invariant) (rule unpaired)
qed

lemma hfile_indexed_iff:
  "hfile_indexed s \<longleftrightarrow> (\<forall>(h, k) \<in> set (internal_components s). hfile_of s k = Some h)"
  by (auto simp: hfile_indexed_def list_all_iff)

lemma set_update_fresh:
  assumes "map_of al k = None"
  shows "set (AList.update k v al) = insert (k, v) (set al)"
  using assms by (induction al) (auto split: if_splits)

lemma set_update_subset: "set (AList.update k v al) \<subseteq> insert (k, v) (set al)"
  by (induction al) auto

lemma constructed_register:
  assumes "constructed s" and "map_of (components s) key = None"
    and "dep_internal_components c = {}"
  shows "constructed (register key c ws s)"
proof -
  let ?s = "register key c ws s"
  have comps: "components ?s = AList.update key c (components s)"
    and ic: "internal_components ?s = AList.update (comp_hfile c) key (internal_components s)"
    by (simp_all add: register_def warn_def)
  from assms(1) have d: "distinct (map fst (components ?s))"
    by (simp add: comps constructed_def distinct_update)
  have hf: "hfile_of ?s k = (if k = key then Some (comp_hfile c) else hfile_of s k)" for k
    by (simp add: hfile_of_def register_components)
  have "hfile_of ?s k = Some h" if "(h, k) \<in> set (internal_components ?s)" for h k
  proof (cases "(h, k) = (comp_hfile c, key)")
    case True
    then show ?thesis by (simp add: hf)
  next
    case False
    with that set_update_subset[of "comp_hfile c" key "internal_components s"]
    have "(h, k) \<in> set (internal_components s)"
      by (auto simp: ic)
    with assms(1) have old: "hfile_of s k = Some h"
      by (auto simp: constructed_def hfile_indexed_iff)
    with assms(2) have "k \<noteq> key"
      by (auto simp: hfile_of_def)
    with old show ?thesis by (simp add: hf)
  qed
  then have i: "hfile_indexed ?s"
    by (auto simp: hfile_indexed_iff)
  from assms have "fresh_deps ?s"
    by (auto simp: fresh_deps_def list_all_iff comps set_update_fresh constructed_def)
  with d i show ?thesis by (simp add: constructed_def)
qed

lemma constructed_register_unpaired:
  assumes "constructed s" and "map_of (components s) key = None"
    and "dep_internal_components c = {}"
  shows "constructed (register_unpaired key c ws s)"
proof -
  let ?s = "register_unpaired key c ws s"
  have comps: "components ?s = AList.update key c (components s)"
    and ic: "internal_components ?s = internal_components s"
    by (simp_all add: register_unpaired_def warn_def)
  from assms(1) have d: "distinct (map fst (components ?s))"
    by (simp add: comps constructed_def distinct_update)
  have hf: "hfile_of ?s k = (if k = key then Some (comp_hfile c) else hfile_of s k)" for k
    by (simp add: hfile_of_def register_components)
  have "hfile_of ?s k = Some h" if "(h, k) \<in> set (internal_components ?s)" for h k
  proof -
    from that assms(1) have old: "hfile_of s k = Some h"
      by (auto simp: constructed_def hfile_indexed_iff ic)
    with assms(2) have "k \<noteq> key"
      by (auto simp: hfile_of_def)
    with old show ?thesis by (simp add: hf)
  qed
  then have i: "hfile_indexed ?s"
    by (auto simp: hfile_indexed_iff)
  from assms have "fresh_deps ?s"
    by (auto simp: fresh_deps_def list_all_iff comps set_update_fresh constructed_def)
  with d i show ?thesis by (simp add: constructed_def)
qed

lemma make_components_constructed:
  assumes "make_components env s = Inr s'" and "constructed s"
  shows "constructed s'"
  using assms
proof (rule make_components_invariant)
  fix s m
  assume c: "constructed s"
  have "hfile_of (s\<lparr>internal_hfiles := m\<rparr>) = hfile_of s"
    by (rule ext) (simp add: hfile_of_def)
  with c show "constructed (s\<lparr>internal_hfiles := m\<rparr>)"
    unfolding constructed_def hfile_indexed_def fresh_deps_def by simp
next
  fix key c ws s hp cp pkg
  assume "constructed s" "map_of (components s) key = None"
    and "Component_init env (Some hp) cp pkg = Inr (c, ws)"
  with Component_init_fields[of env "Some hp" cp pkg c ws] show "constructed (register key c ws s)"
    by (intro constructed_register) auto
next
  fix key c ws s cp pkg
  assume "constructed s" "map_of (components s) key = None"
    and "Component_init env None (Some cp) pkg = Inr (c, ws)"
  with Component_init_fields[of env None "Some cp" pkg c ws] show "constructed (register_unpaired key c ws s)"
    by (intro constructed_register_unpaired) auto
qed

lemma constructed_analysed: "constructed s \<Longrightarrow> analysed s"
  by (auto simp: constructed_def analysed_def fresh_deps_def no_self_edges_def list_all_iff)

lemma map_entry_keys: "map fst (AList.map_entry k f al) = map fst al"
  by (induction al) auto

lemma map_entry_elem:
  assumes "(k', v') \<in> set (AList.map_entry k f al)"
  shows "\<exists>v. (k', v) \<in> set al \<and> (v' = v \<or> (k' = k \<and> v' = f v))"
  using assms by (induction al) (auto split: if_splits)

lemma same_index_refl: "same_index s s"
  by (simp add: same_index_def)

lemma same_index_trans: "same_index s s1 \<Longrightarrow> same_index s1 s2 \<Longrightarrow> same_index s s2"
  by (simp add: same_index_def)

lemma same_index_entry:
  assumes "\<And>c. comp_hfile (f c) = comp_hfile c"
  shows "same_index s (s\<lparr>components := AList.map_entry k f (components s)\<rparr>)"
proof -
  have "hfile_of (s\<lparr>components := AList.map_entry k f (components s)\<rparr>) k' = hfile_of s k'" for k'
    by (cases "map_of (components s) k") (auto simp: hfile_of_def map_of_map_entry assms)
  then show ?thesis
    by (auto simp: same_index_def map_entry_keys)
qed

lemma same_index_other:
  "same_index s (s\<lparr>external_components := m\<rparr>)"
  "same_index s (warn ws s)"
  by (simp_all add: same_index_def hfile_of_def warn_def fun_eq_iff)

lemma analysed_same_index:
  assumes "analysed s" and "same_index s s'"
    and "list_all (\<lambda>kc. fst kc \<notin> dep_internal_components (snd kc)) (components s')"
  shows "analysed s'"
  using assms
  by (auto simp: analysed_def same_index_def hfile_indexed_def no_self_edges_def
           dest: arg_cong[where f = distinct])

lemma no_self_entry:
  assumes "no_self_edges s"
    and "\<And>c. k \<notin> dep_internal_components c \<Longrightarrow> k \<notin> dep_internal_components (f c)"
  shows "list_all (\<lambda>kc. fst kc \<notin> dep_internal_components (snd kc))
           (AList.map_entry k f (components s))"
proof -
  have "k' \<notin> dep_internal_components v'" if "(k', v') \<in> set (AList.map_entry k f (components s))" for k' v'
  proof -
    from map_entry_elem[OF that] obtain v where v: "(k', v) \<in> set (components s)"
      and c: "v' = v \<or> (k' = k \<and> v' = f v)"
      by blast
    from assms(1) v have "k' \<notin> dep_internal_components v"
      by (auto simp: no_self_edges_def list_all_iff)
    with c assms(2) show ?thesis by auto
  qed
  then show ?thesis by (auto simp: list_all_iff)
qed

lemma analysed_entry:
  assumes "analysed s"
    and "\<And>c. comp_hfile (f c) = comp_hfile c"
    and "\<And>c. k \<notin> dep_internal_components c \<Longrightarrow> k \<notin> dep_internal_components (f c)"
  shows "analysed (s\<lparr>components := AList.map_entry k f (components s)\<rparr>)"
proof (rule analysed_same_index[OF assms(1)])
  show "same_index s (s\<lparr>components := AList.map_entry k f (components s)\<rparr>)"
    by (rule same_index_entry) (rule assms(2))
  from assms(1) have "no_self_edges s" by (simp add: analysed_def)
  then show "list_all (\<lambda>kc. fst kc \<notin> dep_internal_components (snd kc))
           (components (s\<lparr>components := AList.map_entry k f (components s)\<rparr>))"
    using assms(3) by (simp add: no_self_entry)
qed

lemma analysed_other:
  assumes "analysed s"
  shows "analysed (s\<lparr>external_components := m\<rparr>)" and "analysed (warn ws s)"
proof -
  from assms have n: "list_all (\<lambda>kc. fst kc \<notin> dep_internal_components (snd kc)) (components s)"
    by (simp add: analysed_def no_self_edges_def)
  show "analysed (s\<lparr>external_components := m\<rparr>)"
    by (rule analysed_same_index[OF assms same_index_other(1)]) (simp add: n)
  show "analysed (warn ws s)"
    by (rule analysed_same_index[OF assms same_index_other(2)]) (simp add: n warn_def)
qed

lemma locate_analysed:
  assumes "analysed s" and "hfile_of s key = Some (comp_hfile c)"
    and "locate env inc (key, c) s = (found, inc', s')"
  shows "analysed s' \<and> same_index s s'"
proof -
  from locate_cases[OF assms(3)]
  consider "s' = s"
    | d where "comp_hfile c \<noteq> Some (basename (hfile inc))"
        "map_of (internal_components s) (Some (basename (hfile inc))) = Some d"
        "s' = add_internal key d s"
    | e m where "s' = add_external key e (s\<lparr>external_components := m\<rparr>)"
    by blast
  then show ?thesis
  proof cases
    case 1
    with assms(1) show ?thesis by (simp add: same_index_refl)
  next
    case 2
    from 2(2) have "(Some (basename (hfile inc)), d) \<in> set (internal_components s)"
      by (rule map_of_SomeD)
    with assms(1) have "hfile_of s d = Some (Some (basename (hfile inc)))"
      by (auto simp: analysed_def hfile_indexed_iff)
    with assms(2) 2(1) have ne: "d \<noteq> key" by auto
    have a: "analysed s'"
      unfolding 2(3) add_internal_def using assms(1)
      by (rule analysed_entry) (use ne in auto)
    have "same_index s s'"
      unfolding 2(3) add_internal_def by (rule same_index_entry) simp
    with a show ?thesis by simp
  next
    case 3
    let ?t = "s\<lparr>external_components := m\<rparr>"
    from assms(1) have t: "analysed ?t" by (rule analysed_other)
    have a: "analysed s'"
      unfolding 3 add_external_def using t
      by (rule analysed_entry) auto
    have "same_index ?t s'"
      unfolding 3 add_external_def by (rule same_index_entry) simp
    with same_index_other(1)[of s m] have "same_index s s'"
      by (rule same_index_trans)
    with a show ?thesis by simp
  qed
qed

lemma locate_all_analysed:
  assumes "analysed s" and "hfile_of s key = Some (comp_hfile c)"
    and "locate_all env (key, c) incs s = (incs', s')"
  shows "analysed s' \<and> same_index s s'"
  using assms
proof (induction incs arbitrary: s incs' s')
  case Nil
  then show ?case by (simp add: same_index_refl)
next
  case (Cons inc incs)
  obtain found inc1 s1 where l: "locate env inc (key, c) s = (found, inc1, s1)"
    by (cases "locate env inc (key, c) s") auto
  define s2 where "s2 = (if \<not> found
                     then warn [''warning: include issues: header not found: '' @ Include_str inc1] s1
                     else s1)"
  obtain incs1 s3 where r: "locate_all env (key, c) incs s2 = (incs1, s3)"
    by (cases "locate_all env (key, c) incs s2") auto
  from Cons.prems(3) l r have s3: "s' = s3"
    by (simp add: s2_def Let_def)
  from locate_analysed[OF Cons.prems(1,2) l] have a1: "analysed s1" and i1: "same_index s s1"
    by simp_all
  have a2: "analysed s2" and i12: "same_index s1 s2"
    using a1 by (simp_all add: s2_def analysed_other same_index_other same_index_refl)
  from i1 i12 have i2: "same_index s s2" by (rule same_index_trans)
  with Cons.prems(2) have "hfile_of s2 key = Some (comp_hfile c)"
    by (simp add: same_index_def)
  from Cons.IH[OF a2 this r] have "analysed s3" "same_index s2 s3" by simp_all
  with i2 s3 show ?case
    by (auto intro: same_index_trans)
qed

lemma analyze_component_analysed:
  assumes "analysed s" and "hfile_of s (fst kc) = Some (comp_hfile (snd kc))"
  shows "analysed (analyze_component env kc s) \<and> same_index s (analyze_component env kc s)"
proof -
  obtain key c where kc: "kc = (key, c)" by (cases kc)
  obtain in_h s1 where h: "locate_all env (key, c) (includes_in_h c) s = (in_h, s1)"
    by (cases "locate_all env (key, c) (includes_in_h c) s") auto
  obtain in_c s2 where c: "locate_all env (key, c) (includes_in_c c) s1 = (in_c, s2)"
    by (cases "locate_all env (key, c) (includes_in_c c) s1") auto
  let ?f = "\<lambda>c. c\<lparr>includes_in_h := in_h, includes_in_c := in_c\<rparr>"
  let ?s3 = "s2\<lparr>components := AList.map_entry key ?f (components s2)\<rparr>"
  have r: "analyze_component env kc s = warn (check_include_issues (?f c)) ?s3"
    by (simp add: analyze_component_def kc h c)
  from assms kc have hf: "hfile_of s key = Some (comp_hfile c)" by simp
  from locate_all_analysed[OF assms(1) hf h] have a1: "analysed s1" and i1: "same_index s s1"
    by simp_all
  from hf i1 have "hfile_of s1 key = Some (comp_hfile c)"
    by (simp add: same_index_def)
  from locate_all_analysed[OF a1 this c] have a2: "analysed s2" and i2: "same_index s1 s2"
    by simp_all
  have a3: "analysed ?s3"
    using a2 by (rule analysed_entry) simp_all
  have i3: "same_index s2 ?s3"
    by (rule same_index_entry) simp
  have "same_index s (warn (check_include_issues (?f c)) ?s3)"
    using i1 i2 i3 same_index_other(2)[of ?s3] by (blast intro: same_index_trans)
  with a3 show ?thesis
    by (simp add: r analysed_other)
qed

lemma analyze_fold_analysed:
  assumes "analysed s" and "\<forall>kc \<in> set cs. hfile_of s (fst kc) = Some (comp_hfile (snd kc))"
  shows "analysed (fold (analyze_component env) cs s)"
  using assms
proof (induction cs arbitrary: s)
  case Nil
  then show ?case by simp
next
  case (Cons kc cs)
  from Cons.prems have "hfile_of s (fst kc) = Some (comp_hfile (snd kc))" by simp
  from analyze_component_analysed[OF Cons.prems(1) this, of env]
  have a: "analysed (analyze_component env kc s)" and i: "same_index s (analyze_component env kc s)"
    by simp_all
  from i have e: "hfile_of (analyze_component env kc s) = hfile_of s"
    by (simp add: same_index_def)
  have "\<forall>x \<in> set cs. hfile_of (analyze_component env kc s) (fst x) = Some (comp_hfile (snd x))"
  proof
    fix x
    assume "x \<in> set cs"
    with Cons.prems(2) have "hfile_of s (fst x) = Some (comp_hfile (snd x))" by simp
    then show "hfile_of (analyze_component env kc s) (fst x) = Some (comp_hfile (snd x))"
      by (simp only: e)
  qed
  with a have "analysed (fold (analyze_component env) cs (analyze_component env kc s))"
    by (rule Cons.IH)
  then show ?case by simp
qed

lemma analyze_analysed:
  assumes "analysed s"
  shows "analysed (analyze env s)"
  unfolding analyze_def using assms
proof (rule analyze_fold_analysed)
  from assms have d: "distinct (map fst (components s))" by (simp add: analysed_def)
  show "\<forall>kc \<in> set (components s). hfile_of s (fst kc) = Some (comp_hfile (snd kc))"
  proof
    fix kc
    assume "kc \<in> set (components s)"
    with d have "map_of (components s) (fst kc) = Some (snd kc)"
      by (cases kc) simp
    then show "hfile_of s (fst kc) = Some (comp_hfile (snd kc))"
      by (simp add: hfile_of_def)
  qed
qed

lemma analysed_internal_deps:
  assumes "analysed s"
  shows "key \<notin> internal_deps s key"
proof (cases "map_of (components s) key")
  case None
  then show ?thesis by (simp add: internal_deps_def)
next
  case (Some c)
  then have "(key, c) \<in> set (components s)" by (rule map_of_SomeD)
  with assms have "key \<notin> dep_internal_components c"
    by (auto simp: analysed_def no_self_edges_def list_all_iff)
  with Some show ?thesis by (simp add: internal_deps_def)
qed

text \<open>
  Claim C4. Start from an analysis in which no component has been constructed yet, as
  \<open>DependencyAnalysis.__init__\<close> leaves it: \<open>components\<close> and \<open>internal_components\<close>
  are empty. When \<open>make_components\<close> has paired the files and \<open>analyze\<close> has resolved
  the includes, no component is among its own internal dependencies, whatever the
  configured groups are and whatever the files include.
\<close>

theorem no_self_dependency:
  assumes "components s0 = []" and "internal_components s0 = []"
    and "make_components env s0 = Inr s1"
  shows "(\<forall>key. key \<notin> internal_deps (analyze env s1) key)
       \<and> list_all (\<lambda>kc. fst kc \<notin> dep_internal_components (snd kc))
             (components (analyze env s1))"
proof -
  from assms(1,2) have "constructed s0"
    by (simp add: constructed_def hfile_indexed_def fresh_deps_def)
  with assms(3) have "constructed s1" by (rule make_components_constructed)
  then have "analysed s1" by (rule constructed_analysed)
  then have s: "analysed (analyze env s1)" by (rule analyze_analysed)
  then have "list_all (\<lambda>kc. fst kc \<notin> dep_internal_components (snd kc))
               (components (analyze env s1))"
    by (simp add: analysed_def no_self_edges_def)
  with analysed_internal_deps[OF s] show ?thesis by simp
qed

theorem no_self_dependency_witness:
  "make_components example_env example_configured = Inr example_analysis
   \<and> map fst (components (analyze example_env example_analysis)) = [''a'', ''b'', ''main'']
   \<and> internal_deps (analyze example_env example_analysis) ''b'' = {''a''}
   \<and> internal_deps (analyze example_env example_analysis) ''main'' = {''b''}
   \<and> ''b'' \<notin> internal_deps (analyze example_env example_analysis) ''b''
   \<and> ''a'' \<notin> internal_deps (analyze example_env example_analysis) ''a''"
proof -
  have c: "components example_configured = []"
    by code_simp
  have i: "internal_components example_configured = []"
    by code_simp
  have m: "make_components example_env example_configured = Inr example_analysis"
    by code_simp
  have k: "map fst (components (analyze example_env example_analysis)) = [''a'', ''b'', ''main'']"
    by code_simp
  have d: "internal_deps (analyze example_env example_analysis) ''b'' = {''a''}"
    by code_simp
  have e: "internal_deps (analyze example_env example_analysis) ''main'' = {''b''}"
    by code_simp
  note t = no_self_dependency[OF c i m]
  show ?thesis
    by (rule conjI[OF m conjI[OF k conjI[OF d conjI[OF e
          conjI[OF t[THEN conjunct1, THEN spec] t[THEN conjunct1, THEN spec]]]]]])
qed

section \<open>Quoted and angled includes\<close>

lemma erase_fields:
  "internal_components (erase s) = internal_components s"
  "external_components (erase s) = external_components s"
  "external_groups (erase s) = external_groups s"
  "components (erase s) = map erase_entry (components s)"
  "stderr (erase s) = map (\<lambda>w. []) (stderr s)"
  by (simp_all add: erase_def)

lemma erase_comp_fields:
  "hpath (erase_comp c) = hpath c"
  "cpath (erase_comp c) = cpath c"
  "comp_hfile (erase_comp c) = comp_hfile c"
  "dep_internal_components (erase_comp c) = dep_internal_components c"
  "dep_external_components (erase_comp c) = dep_external_components c"
  "includes_in_h (erase_comp c) = map erase_inc (includes_in_h c)"
  "includes_in_c (erase_comp c) = map erase_inc (includes_in_c c)"
  by (simp_all add: erase_comp_def)

lemma erase_inc_fields:
  "hfile (erase_inc i) = hfile i"
  "inc_hpath (erase_inc i) = inc_hpath i"
  "erase_inc (i\<lparr>inc_hpath := p\<rparr>) = (erase_inc i)\<lparr>inc_hpath := p\<rparr>"
  by (simp_all add: erase_inc_def)

lemma map_of_erase_entries:
  "map_of (map erase_entry al) k = map_option erase_comp (map_of al k)"
  by (induction al) (auto simp: erase_entry_def)

lemma map_of_erase:
  "map_of (components (erase s)) k = map_option erase_comp (map_of (components s) k)"
  by (simp add: erase_fields map_of_erase_entries)

lemma erase_entries_map_entry:
  assumes "\<And>c. erase_comp (f c) = g (erase_comp c)"
  shows "map erase_entry (AList.map_entry k f al) = AList.map_entry k g (map erase_entry al)"
  using assms by (induction al) (auto simp: erase_entry_def)

lemma erase_map_entry:
  assumes "\<And>c. erase_comp (f c) = g (erase_comp c)"
  shows "erase (s\<lparr>components := AList.map_entry k f (components s)\<rparr>)
           = (erase s)\<lparr>components := AList.map_entry k g (components (erase s))\<rparr>"
  using erase_entries_map_entry[of f g k "components s", OF assms]
  by (simp add: erase_def)

lemma erase_add:
  "erase (add_internal k d s) = add_internal k d (erase s)"
  "erase (add_external k e s) = add_external k e (erase s)"
  unfolding add_internal_def add_external_def
  by (rule erase_map_entry, simp add: erase_comp_def)+

lemma erase_other:
  "erase (warn ws s) = warn (map (\<lambda>w. []) ws) (erase s)"
  "erase (s\<lparr>external_components := m\<rparr>) = (erase s)\<lparr>external_components := m\<rparr>"
  by (simp_all add: erase_def warn_def)

lemma locate_erase:
  assumes "locate env i (key, c) s = (found, i1, s1)"
  shows "locate env (erase_inc i) (key, erase_comp c) (erase s) = (found, erase_inc i1, erase s1)"
proof (cases "comp_hfile c = Some (basename (hfile i))")
  case True
  with assms have "found = True" "i1 = i\<lparr>inc_hpath := hpath c\<rparr>" "s1 = s"
    by (simp_all add: locate_self)
  with True show ?thesis
    by (simp add: locate_self erase_comp_fields erase_inc_fields)
next
  case own: False
  show ?thesis
  proof (cases "map_of (internal_components s) (Some (basename (hfile i)))")
    case (Some d)
    with assms own have "found = True" "s1 = add_internal key d s"
      "i1 = i\<lparr>inc_hpath := (case map_of (components s) d of None \<Rightarrow> None | Some dc \<Rightarrow> hpath dc)\<rparr>"
      by (simp_all add: locate_internal)
    moreover have "(case map_of (components (erase s)) d of None \<Rightarrow> None | Some dc \<Rightarrow> hpath dc)
                     = (case map_of (components s) d of None \<Rightarrow> None | Some dc \<Rightarrow> hpath dc)"
      by (cases "map_of (components s) d") (simp_all add: map_of_erase erase_comp_fields)
    ultimately show ?thesis
      using own Some
      by (simp add: locate_internal erase_comp_fields erase_inc_fields erase_fields erase_add)
  next
    case internal: None
    show ?thesis
    proof (cases "map_of (external_components s) (basename (hfile i))")
      case (Some e)
      with assms own internal have "found = True" "s1 = add_external key e s"
        "i1 = i\<lparr>inc_hpath := Some (ext_hpath e)\<rparr>"
        by (simp_all add: locate_cached)
      with own internal Some show ?thesis
        by (simp add: locate_cached erase_comp_fields erase_inc_fields erase_fields erase_add)
    next
      case cached: None
      show ?thesis
      proof (cases "find_external_component env (basename (hfile i)) (external_groups s)")
        case None
        with assms own internal cached have "found = False" "i1 = i" "s1 = s"
          by (simp_all add: locate_unresolved)
        with own internal cached None show ?thesis
          by (simp add: locate_unresolved erase_comp_fields erase_inc_fields erase_fields)
      next
        case (Some pe)
        obtain p e where pe: "pe = (p, e)" by (cases pe)
        with assms own internal cached Some have "found = True" "i1 = i\<lparr>inc_hpath := Some p\<rparr>"
          "s1 = add_external key e
                  (s\<lparr>external_components := AList.update (basename (hfile i)) e (external_components s)\<rparr>)"
          by (simp_all add: locate_found)
        with own internal cached Some pe show ?thesis
          by (simp add: locate_found erase_comp_fields erase_inc_fields erase_fields erase_add
                erase_other)
      qed
    qed
  qed
qed

lemma locate_both:
  assumes "erase s = erase t" and "erase_inc i = erase_inc j" and "erase_comp c = erase_comp c'"
    and "locate env i (key, c) s = (f1, i1, s1)" and "locate env j (key, c') t = (f2, j1, t1)"
  shows "f1 = f2 \<and> erase_inc i1 = erase_inc j1 \<and> erase s1 = erase t1"
proof -
  from locate_erase[OF assms(4)] locate_erase[OF assms(5)] assms(1-3)
  have "(f1, erase_inc i1, erase s1) = (f2, erase_inc j1, erase t1)"
    by simp
  then show ?thesis by simp
qed

lemma locate_all_both:
  assumes "erase s = erase t" and "map erase_inc is = map erase_inc js"
    and "erase_comp c = erase_comp c'"
    and "locate_all env (key, c) is s = (is1, s1)" and "locate_all env (key, c') js t = (js1, t1)"
  shows "map erase_inc is1 = map erase_inc js1 \<and> erase s1 = erase t1"
  using assms(1,2,4,5)
proof (induction "is" arbitrary: js s t is1 s1 js1 t1)
  case Nil
  then show ?case by simp
next
  case (Cons i "is")
  from Cons.prems(2) obtain j js' where js: "js = j # js'" and ij: "erase_inc i = erase_inc j"
    and rest: "map erase_inc is = map erase_inc js'"
    by (cases js) auto
  obtain f1 i1 sa where la: "locate env i (key, c) s = (f1, i1, sa)"
    by (cases "locate env i (key, c) s") auto
  obtain f2 j1 ta where lb: "locate env j (key, c') t = (f2, j1, ta)"
    by (cases "locate env j (key, c') t") auto
  from locate_both[OF Cons.prems(1) ij assms(3) la lb]
  have f: "f1 = f2" and i1: "erase_inc i1 = erase_inc j1" and e1: "erase sa = erase ta"
    by simp_all
  define sb where "sb = (if \<not> f1
                     then warn [''warning: include issues: header not found: '' @ Include_str i1] sa
                     else sa)"
  define tb where "tb = (if \<not> f2
                     then warn [''warning: include issues: header not found: '' @ Include_str j1] ta
                     else ta)"
  from f e1 have e2: "erase sb = erase tb"
    by (simp add: sb_def tb_def erase_other)
  obtain is2 sc where ra: "locate_all env (key, c) is sb = (is2, sc)"
    by (cases "locate_all env (key, c) is sb") auto
  obtain js2 tc where rb: "locate_all env (key, c') js' tb = (js2, tc)"
    by (cases "locate_all env (key, c') js' tb") auto
  from Cons.prems(3) la ra have a: "is1 = i1 # is2" "s1 = sc"
    by (simp_all add: sb_def Let_def)
  from Cons.prems(4) js lb rb have b: "js1 = j1 # js2" "t1 = tc"
    by (simp_all add: tb_def Let_def)
  from Cons.IH[OF e2 rest ra rb] i1 a b show ?case
    by simp
qed

lemma check_erase:
  "check_include_issues (erase_comp c) = check_include_issues c"
proof -
  have "map (\<lambda>x. Some (basename (hfile x))) (map erase_inc xs) = map (\<lambda>x. Some (basename (hfile x))) xs" for xs
    by (simp add: erase_inc_fields)
  then show ?thesis
    by (cases "includes_in_c c")
       (simp_all add: check_include_issues_def erase_comp_fields erase_inc_fields)
qed

lemma analyze_component_both:
  assumes "erase s = erase t" and "erase_entry kc = erase_entry kc'"
  shows "erase (analyze_component env kc s) = erase (analyze_component env kc' t)"
proof -
  obtain key c where kc: "kc = (key, c)" by (cases kc)
  obtain key' c' where kc': "kc' = (key', c')" by (cases kc')
  from assms(2) kc kc' have k: "key' = key" and c: "erase_comp c = erase_comp c'"
    by (simp_all add: erase_entry_def)
  from c have ih: "map erase_inc (includes_in_h c) = map erase_inc (includes_in_h c')"
    and ic: "map erase_inc (includes_in_c c) = map erase_inc (includes_in_c c')"
    by (metis erase_comp_fields(6), metis erase_comp_fields(7))
  obtain ah s1 where a1: "locate_all env (key, c) (includes_in_h c) s = (ah, s1)"
    by (cases "locate_all env (key, c) (includes_in_h c) s") auto
  obtain bh t1 where b1: "locate_all env (key, c') (includes_in_h c') t = (bh, t1)"
    by (cases "locate_all env (key, c') (includes_in_h c') t") auto
  from locate_all_both[OF assms(1) ih c a1 b1]
  have h: "map erase_inc ah = map erase_inc bh" and e1: "erase s1 = erase t1"
    by simp_all
  obtain ac s2 where a2: "locate_all env (key, c) (includes_in_c c) s1 = (ac, s2)"
    by (cases "locate_all env (key, c) (includes_in_c c) s1") auto
  obtain bc t2 where b2: "locate_all env (key, c') (includes_in_c c') t1 = (bc, t2)"
    by (cases "locate_all env (key, c') (includes_in_c c') t1") auto
  from locate_all_both[OF e1 ic c a2 b2]
  have cc: "map erase_inc ac = map erase_inc bc" and e2: "erase s2 = erase t2"
    by simp_all
  let ?g = "\<lambda>x. x\<lparr>includes_in_h := map erase_inc ah, includes_in_c := map erase_inc ac\<rparr>"
  have ra: "analyze_component env kc s
              = warn (check_include_issues (c\<lparr>includes_in_h := ah, includes_in_c := ac\<rparr>))
                  (s2\<lparr>components :=
                       AList.map_entry key (\<lambda>x. x\<lparr>includes_in_h := ah, includes_in_c := ac\<rparr>)
                         (components s2)\<rparr>)"
    by (simp add: analyze_component_def kc a1 a2)
  have rb: "analyze_component env kc' t
              = warn (check_include_issues (c'\<lparr>includes_in_h := bh, includes_in_c := bc\<rparr>))
                  (t2\<lparr>components :=
                       AList.map_entry key (\<lambda>x. x\<lparr>includes_in_h := bh, includes_in_c := bc\<rparr>)
                         (components t2)\<rparr>)"
    by (simp add: analyze_component_def kc' k b1 b2)
  have ea: "erase (s2\<lparr>components :=
                       AList.map_entry key (\<lambda>x. x\<lparr>includes_in_h := ah, includes_in_c := ac\<rparr>)
                         (components s2)\<rparr>)
              = (erase s2)\<lparr>components := AList.map_entry key ?g (components (erase s2))\<rparr>"
    by (rule erase_map_entry) (simp add: erase_comp_def)
  have eb: "erase (t2\<lparr>components :=
                       AList.map_entry key (\<lambda>x. x\<lparr>includes_in_h := bh, includes_in_c := bc\<rparr>)
                         (components t2)\<rparr>)
              = (erase t2)\<lparr>components := AList.map_entry key ?g (components (erase t2))\<rparr>"
    unfolding h cc by (rule erase_map_entry) (simp add: erase_comp_def)
  have "erase_comp (c\<lparr>includes_in_h := ah, includes_in_c := ac\<rparr>)
          = erase_comp (c'\<lparr>includes_in_h := bh, includes_in_c := bc\<rparr>)"
  proof -
    have "erase_comp (x\<lparr>includes_in_h := a, includes_in_c := b\<rparr>)
            = (erase_comp x)\<lparr>includes_in_h := map erase_inc a, includes_in_c := map erase_inc b\<rparr>" for x a b
      by (simp add: erase_comp_def)
    with c h cc show ?thesis by simp
  qed
  then have "check_include_issues (c\<lparr>includes_in_h := ah, includes_in_c := ac\<rparr>)
               = check_include_issues (c'\<lparr>includes_in_h := bh, includes_in_c := bc\<rparr>)"
    by (metis check_erase)
  with ea eb e2 show ?thesis
    by (simp only: ra rb erase_other)
qed

lemma analyze_fold_both:
  assumes "erase s = erase t" and "map erase_entry cs = map erase_entry ct"
  shows "erase (fold (analyze_component env) cs s) = erase (fold (analyze_component env) ct t)"
  using assms
proof (induction cs arbitrary: ct s t)
  case Nil
  then show ?case by simp
next
  case (Cons kc cs)
  from Cons.prems(2) obtain kc' ct' where ct: "ct = kc' # ct'" and k: "erase_entry kc = erase_entry kc'"
    and r: "map erase_entry cs = map erase_entry ct'"
    by (cases ct) auto
  from analyze_component_both[OF Cons.prems(1) k]
  have "erase (analyze_component env kc s) = erase (analyze_component env kc' t)" .
  from Cons.IH[OF this r] show ?case
    by (simp add: ct)
qed

lemma analyze_both:
  assumes "erase s = erase t"
  shows "erase (analyze env s) = erase (analyze env t)"
proof -
  from assms have "components (erase s) = components (erase t)" by simp
  then have "map erase_entry (components s) = map erase_entry (components t)"
    by (simp add: erase_fields)
  with assms show ?thesis
    unfolding analyze_def by (rule analyze_fold_both)
qed

lemma deps_erase:
  "internal_deps (erase s) = internal_deps s"
  "external_deps (erase s) = external_deps s"
proof -
  have "internal_deps (erase s) k = internal_deps s k" for k
    by (cases "map_of (components s) k")
       (simp_all add: internal_deps_def map_of_erase erase_comp_fields)
  then show "internal_deps (erase s) = internal_deps s" by (rule ext)
  have "external_deps (erase s) k = external_deps s k" for k
    by (cases "map_of (components s) k")
       (simp_all add: external_deps_def map_of_erase erase_comp_fields)
  then show "external_deps (erase s) = external_deps s" by (rule ext)
qed

lemma find_external_component_walk:
  assumes "walk env' = walk env"
  shows "find_external_component env' hf groups = find_external_component env hf groups"
  by (simp add: find_external_component_def find_in_def assms)

lemma locate_walk:
  assumes "walk env' = walk env"
  shows "locate env' i kc s = locate env i kc s"
  unfolding locate_def find_external_component_walk[OF assms] by (rule refl)

lemma locate_all_walk:
  assumes "walk env' = walk env"
  shows "locate_all env' kc incs s = locate_all env kc incs s"
  by (induction incs arbitrary: s) (simp_all add: locate_walk[OF assms])

lemma analyze_walk:
  assumes "walk env' = walk env"
  shows "analyze env' s = analyze env s"
proof -
  have "analyze_component env' = analyze_component env"
    by (intro ext) (simp add: analyze_component_def locate_all_walk[OF assms])
  then show ?thesis by (simp add: analyze_def)
qed

text \<open>
  Claim C9. Two analyses that differ only in the flags \<open>with_quotes\<close> of their
  includes (and in the text of what they printed before) give, after \<open>analyze\<close>, the
  same internal and external dependency edges, the same cache of external components
  and the same number of warnings, and differ again only in the flags and in the text
  of the warnings. The resolution reads the file system through \<open>os.walk\<close> alone: it
  does not depend on \<open>os.path.isfile\<close>, the test on which \<open>Include.locate\<close> is built,
  and no definition of the analysis refers to \<open>Include.locate\<close>.
\<close>

theorem quotes_irrelevant:
  assumes "erase s = erase t"
  shows "erase (analyze env s) = erase (analyze env t)
       \<and> internal_deps (analyze env s) = internal_deps (analyze env t)
       \<and> external_deps (analyze env s) = external_deps (analyze env t)
       \<and> external_components (analyze env s) = external_components (analyze env t)
       \<and> length (stderr (analyze env s)) = length (stderr (analyze env t))
       \<and> (walk env' = walk env \<longrightarrow> analyze env' s = analyze env s)"
proof -
  from assms have e: "erase (analyze env s) = erase (analyze env t)"
    by (rule analyze_both)
  from e have "internal_deps (erase (analyze env s)) = internal_deps (erase (analyze env t))"
    and "external_deps (erase (analyze env s)) = external_deps (erase (analyze env t))"
    and "external_components (erase (analyze env s)) = external_components (erase (analyze env t))"
    and "length (stderr (erase (analyze env s))) = length (stderr (erase (analyze env t)))"
    by simp_all
  then have "internal_deps (analyze env s) = internal_deps (analyze env t)"
    and "external_deps (analyze env s) = external_deps (analyze env t)"
    and "external_components (analyze env s) = external_components (analyze env t)"
    and "length (stderr (analyze env s)) = length (stderr (analyze env t))"
    by (simp_all add: deps_erase erase_fields)
  with e analyze_walk[of env' env s] show ?thesis
    by simp
qed

theorem quotes_irrelevant_witness:
  "erase example_analysis = erase example_flipped
   \<and> map (\<lambda>kc. map with_quotes (includes_in_c (snd kc))) (components example_analysis)
       = [[True], [True, True, False], [False, True]]
   \<and> map (\<lambda>kc. map with_quotes (includes_in_c (snd kc))) (components example_flipped)
       = [[False], [False, False, True], [True, False]]
   \<and> internal_deps (analyze example_env example_analysis)
       = internal_deps (analyze example_env example_flipped)
   \<and> external_deps (analyze example_env example_analysis)
       = external_deps (analyze example_env example_flipped)
   \<and> length (stderr (analyze example_env example_analysis))
       = length (stderr (analyze example_env example_flipped))"
proof -
  have h: "erase example_analysis = erase example_flipped"
    by code_simp
  have f1: "map (\<lambda>kc. map with_quotes (includes_in_c (snd kc))) (components example_analysis)
       = [[True], [True, True, False], [False, True]]"
    by code_simp
  have f2: "map (\<lambda>kc. map with_quotes (includes_in_c (snd kc))) (components example_flipped)
       = [[False], [False, False, True], [True, False]]"
    by code_simp
  note t = quotes_irrelevant[OF h, of example_env example_env]
  show ?thesis
    by (rule conjI[OF h conjI[OF f1 conjI[OF f2
          conjI[OF t[THEN conjunct2, THEN conjunct1]
            conjI[OF t[THEN conjunct2, THEN conjunct2, THEN conjunct1]
              t[THEN conjunct2, THEN conjunct2, THEN conjunct2, THEN conjunct2, THEN conjunct1]]]]]])
qed

end
